theory Spec2Isabelle
  imports Complex_Main "HOL-Library.Sublist"
begin

section \<open>The remote service as seen by \<open>main.py\<close>\<close>

text \<open>
  Every function of \<open>main.py\<close> that talks to the YouTube Data API receives the client
  object \<open>youtube\<close>, builds a request and calls \<open>request.execute()\<close>. The call either
  returns a response dictionary, raises \<open>ssl.SSLError\<close>, or raises some other exception.
  The client is modelled as a record: one function per endpoint that gives the response
  of a call that succeeds, a script \<open>faults\<close> that says, call after call, whether the
  next \<open>execute()\<close> succeeds (an exhausted script means that every further call
  succeeds), and the list \<open>calls\<close> of the requests executed so far.
\<close>

datatype error = SSLError | RemoteError | KeyError | ValueError string

datatype fault = NoFault | SSLFault | OtherFault

datatype api_call =
    ChannelsForUsername string
  | SearchChannels string
  | PlaylistItems string int "string option"
  | VideosList "string list"

text \<open>
  A response of \<open>channels().list\<close> or \<open>search().list\<close>: the member \<open>items\<close> may be absent;
  of each item only the channel id that the code reads is kept (\<open>None\<close> when the item
  lacks the key, so that reading it raises \<open>KeyError\<close>).
\<close>

record id_response =
  id_items :: "string option list option"

text \<open>
  A response of \<open>playlistItems().list\<close>: \<open>items\<close> (each item reduced to its
  \<open>contentDetails.videoId\<close>, \<open>None\<close> when a key is missing) and \<open>nextPageToken\<close>.
\<close>

record pl_response =
  pl_items :: "string option list option"
  nextPageToken :: "string option"

text \<open>
  An item of \<open>videos().list\<close>. \<open>int(item['statistics'].get('viewCount', 0))\<close> is
  abstracted: \<open>Missing\<close> is an absent \<open>viewCount\<close>, \<open>Numeric v\<close> a value on which
  \<open>int()\<close> returns \<open>v\<close>, \<open>NonNumeric\<close> a value on which it raises \<open>ValueError\<close>.
\<close>

datatype view_count_field = Missing | Numeric int | NonNumeric

record snippet =
  publishedAt :: "string option"
  snippet_title :: "string option"

record video_item =
  item_id :: "string option"
  item_statistics :: "view_count_field option"
  item_snippet :: "snippet option"

record vid_response =
  vid_items :: "video_item list option"

record youtube =
  channels_for_username :: "string \<Rightarrow> id_response"
  search_channels :: "string \<Rightarrow> id_response"
  playlist_items :: "string \<Rightarrow> int \<Rightarrow> string option \<Rightarrow> pl_response"
  videos :: "string list \<Rightarrow> vid_response"
  faults :: "fault list"
  calls :: "api_call list"

definition next_fault :: "youtube \<Rightarrow> fault" where
  "next_fault yt = (case faults yt of [] \<Rightarrow> NoFault | f # _ \<Rightarrow> f)"

definition advance :: "api_call \<Rightarrow> youtube \<Rightarrow> youtube" where
  "advance c yt = yt\<lparr>faults := tl (faults yt), calls := calls yt @ [c]\<rparr>"

text \<open>\<open>request.execute()\<close>: the request is logged, the next entry of the script decides.\<close>

definition execute :: "api_call \<Rightarrow> youtube \<Rightarrow> fault \<times> youtube" where
  "execute c yt = (next_fault yt, advance c yt)"

text \<open>Python's truth value of \<open>response.get('nextPageToken')\<close>: \<open>None\<close> and \<open>''\<close> are false.\<close>

definition falsy :: "string option \<Rightarrow> bool" where
  "falsy tok = (case tok of None \<Rightarrow> True | Some s \<Rightarrow> s = [])"

section \<open>\<open>get_all_video_ids\<close>\<close>

text \<open>
  \<open>for item in response['items']: video_ids.append(item['contentDetails']['videoId'])\<close>;
  \<open>None\<close> is the \<open>KeyError\<close> of an item without the key.
\<close>

fun append_ids :: "string list \<Rightarrow> string option list \<Rightarrow> string list option" where
  "append_ids video_ids [] = Some video_ids"
| "append_ids video_ids (None # its) = None"
| "append_ids video_ids (Some v # its) = append_ids (video_ids @ [v]) its"

text \<open>
  The \<open>while True\<close> loop of \<open>get_all_video_ids\<close>, on its three variables \<open>video_ids\<close>,
  \<open>next_page_token\<close> and \<open>retries\<close>. The loop need not end (a service may hand out
  continuation tokens forever), so the result is an option: \<open>None\<close> is a run that
  never returns.
\<close>

partial_function (option) all_loop ::
  "youtube \<Rightarrow> string \<Rightarrow> string list \<Rightarrow> string option \<Rightarrow> int
     \<Rightarrow> ((error + string list) \<times> youtube) option" where
  "all_loop yt uploads_playlist_id video_ids next_page_token retries =
     (case execute (PlaylistItems uploads_playlist_id 50 next_page_token) yt of
        (NoFault, yt') \<Rightarrow>
          (let response = playlist_items yt' uploads_playlist_id 50 next_page_token in
           case pl_items response of
             None \<Rightarrow> Some (Inr video_ids, yt')
           | Some its \<Rightarrow>
               (case append_ids video_ids its of
                  None \<Rightarrow> Some (Inl KeyError, yt')
                | Some video_ids' \<Rightarrow>
                    if falsy (nextPageToken response) then Some (Inr video_ids', yt')
                    else all_loop yt' uploads_playlist_id video_ids'
                           (nextPageToken response) retries))
      | (SSLFault, yt') \<Rightarrow>
          if retries - 1 > 0
          then all_loop yt' uploads_playlist_id video_ids next_page_token (retries - 1)
          else Some (Inl SSLError, yt')
      | (OtherFault, yt') \<Rightarrow> Some (Inl RemoteError, yt'))"

declare all_loop.simps [code]

definition get_all_video_ids ::
  "youtube \<Rightarrow> string \<Rightarrow> ((error + string list) \<times> youtube) option" where
  "get_all_video_ids yt uploads_playlist_id = all_loop yt uploads_playlist_id [] None 3"

section \<open>\<open>get_last_n_video_ids\<close>\<close>

text \<open>
  The inner \<open>for\<close> loop of \<open>get_last_n_video_ids\<close>, which leaves as soon as
  \<open>len(video_ids) == n\<close>.
\<close>

fun append_ids_n :: "int \<Rightarrow> string list \<Rightarrow> string option list \<Rightarrow> string list option" where
  "append_ids_n n video_ids [] = Some video_ids"
| "append_ids_n n video_ids (None # its) = None"
| "append_ids_n n video_ids (Some v # its) =
     (if int (length (video_ids @ [v])) = n then Some (video_ids @ [v])
      else append_ids_n n (video_ids @ [v]) its)"

partial_function (option) last_n_loop ::
  "youtube \<Rightarrow> string \<Rightarrow> int \<Rightarrow> string list \<Rightarrow> string option \<Rightarrow> int
     \<Rightarrow> ((error + string list) \<times> youtube) option" where
  "last_n_loop yt uploads_playlist_id n video_ids next_page_token retries =
     (if int (length video_ids) < n then
        (case execute (PlaylistItems uploads_playlist_id
                         (min (n - int (length video_ids)) 50) next_page_token) yt of
           (NoFault, yt') \<Rightarrow>
             (let response = playlist_items yt' uploads_playlist_id
                               (min (n - int (length video_ids)) 50) next_page_token in
              case pl_items response of
                None \<Rightarrow> Some (Inr video_ids, yt')
              | Some its \<Rightarrow>
                  (case append_ids_n n video_ids its of
                     None \<Rightarrow> Some (Inl KeyError, yt')
                   | Some video_ids' \<Rightarrow>
                       if falsy (nextPageToken response) then Some (Inr video_ids', yt')
                       else last_n_loop yt' uploads_playlist_id n video_ids'
                              (nextPageToken response) retries))
         | (SSLFault, yt') \<Rightarrow>
             if retries - 1 > 0
             then last_n_loop yt' uploads_playlist_id n video_ids next_page_token (retries - 1)
             else Some (Inl SSLError, yt')
         | (OtherFault, yt') \<Rightarrow> Some (Inl RemoteError, yt'))
      else Some (Inr video_ids, yt))"

declare last_n_loop.simps [code]

definition get_last_n_video_ids ::
  "youtube \<Rightarrow> string \<Rightarrow> int \<Rightarrow> ((error + string list) \<times> youtube) option" where
  "get_last_n_video_ids yt uploads_playlist_id n = last_n_loop yt uploads_playlist_id n [] None 3"

section \<open>A playlist served page by page\<close>

text \<open>
  The claims about a playlist of \<open>M\<close> videos need the behaviour of the service they
  assume: the uploads playlist is a list of video ids, a request for \<open>maxResults\<close> items at
  a continuation token is answered with the next \<open>maxResults\<close> ids in order, and
  a continuation token is returned exactly when ids remain. The token of offset \<open>k\<close> is a
  string of \<open>k\<close> characters; the first request carries no token.
\<close>

definition page_token :: "nat \<Rightarrow> string option" where
  "page_token off = Some (replicate off CHR ''t'')"

definition token_offset :: "string option \<Rightarrow> nat" where
  "token_offset tok = (case tok of None \<Rightarrow> 0 | Some s \<Rightarrow> length s)"

definition playlist_page :: "string list \<Rightarrow> int \<Rightarrow> string option \<Rightarrow> pl_response" where
  "playlist_page pl maxResults tok =
     \<lparr>pl_items = Some (map Some (take (nat maxResults) (drop (token_offset tok) pl))),
      nextPageToken = (if token_offset tok + nat maxResults < length pl
                       then page_token (token_offset tok + nat maxResults) else None)\<rparr>"

text \<open>A client whose uploads playlist is \<open>pl\<close> and whose calls follow the script \<open>fs\<close>.\<close>

definition playlist_service :: "string list \<Rightarrow> fault list \<Rightarrow> youtube" where
  "playlist_service pl fs =
     \<lparr>channels_for_username = (\<lambda>_. \<lparr>id_items = None\<rparr>),
      search_channels = (\<lambda>_. \<lparr>id_items = None\<rparr>),
      playlist_items = (\<lambda>_. playlist_page pl),
      videos = (\<lambda>_. \<lparr>vid_items = None\<rparr>),
      faults = fs, calls = []\<rparr>"


text \<open>
  The requests of a run that meets no fault, in closed form: page \<open>k\<close> is asked for at
  offset \<open>off + 50 * k\<close>. \<open>M\<close> is the size of the playlist, \<open>off\<close> and \<open>tok\<close> the
  offset and token of the first request (\<open>0\<close> and \<open>None\<close> for a whole run).
\<close>

definition all_requests_from :: "string \<Rightarrow> nat \<Rightarrow> nat \<Rightarrow> string option \<Rightarrow> api_call list" where
  "all_requests_from pid M off tok =
     PlaylistItems pid 50 tok #
       map (\<lambda>k. PlaylistItems pid 50 (page_token (off + 50 * k)))
         [1..<Suc ((M - off - 1) div 50)]"

definition n_requests_from ::
  "string \<Rightarrow> int \<Rightarrow> nat \<Rightarrow> nat \<Rightarrow> string option \<Rightarrow> api_call list" where
  "n_requests_from pid n M off tok =
     PlaylistItems pid (min (n - int off) 50) tok #
       map (\<lambda>k. PlaylistItems pid (min (n - int (off + 50 * k)) 50) (page_token (off + 50 * k)))
         [1..<Suc ((min (nat n) M - off - 1) div 50)]"

text \<open>
  What a script of faults makes of a sequence of requests when every request that meets
  an SSL fault is issued once more, unchanged, before the sequence goes on.
\<close>

fun retry_log :: "fault list \<Rightarrow> api_call list \<Rightarrow> api_call list" where
  "retry_log fs [] = []"
| "retry_log [] rs = rs"
| "retry_log (SSLFault # fs) (r # rs) = r # retry_log fs (r # rs)"
| "retry_log (f # fs) (r # rs) = r # retry_log fs rs"

definition ssl_count :: "fault list \<Rightarrow> int" where
  "ssl_count fs = int (length (filter (\<lambda>f. f = SSLFault) fs))"

definition ok_count :: "fault list \<Rightarrow> nat" where
  "ok_count fs = length (filter (\<lambda>f. f = NoFault) fs)"

section \<open>\<open>get_videos_statistics\<close>\<close>

record video_stat =
  video_id :: string
  title :: string
  view_count :: int
  upload_date :: string

text \<open>
  The body of \<open>for item in response['items']\<close>: four reads of the item, each of which
  raises when the key is missing (or when \<open>int()\<close> rejects the view count).
\<close>

definition parse_item :: "video_item \<Rightarrow> error + video_stat" where
  "parse_item item =
     (case item_id item of
        None \<Rightarrow> Inl KeyError
      | Some vid \<Rightarrow>
         (case item_statistics item of
            None \<Rightarrow> Inl KeyError
          | Some NonNumeric \<Rightarrow> Inl (ValueError ''invalid literal for int()'')
          | Some vc \<Rightarrow>
             (case item_snippet item of
                None \<Rightarrow> Inl KeyError
              | Some sn \<Rightarrow>
                 (case publishedAt sn of
                    None \<Rightarrow> Inl KeyError
                  | Some d \<Rightarrow>
                     (case snippet_title sn of
                        None \<Rightarrow> Inl KeyError
                      | Some t \<Rightarrow>
                          Inr \<lparr>video_id = vid, title = t,
                               view_count = (case vc of Numeric v \<Rightarrow> v | _ \<Rightarrow> 0),
                               upload_date = d\<rparr>)))))"

text \<open>
  The \<open>for\<close> loop appends to \<open>statistics\<close> as it goes: when an item raises, the records
  of the items before it stay in the list.
\<close>

fun append_stats :: "video_stat list \<Rightarrow> video_item list \<Rightarrow> video_stat list \<times> error option" where
  "append_stats statistics [] = (statistics, None)"
| "append_stats statistics (item # items) =
     (case parse_item item of
        Inl e \<Rightarrow> (statistics, Some e)
      | Inr s \<Rightarrow> append_stats (statistics @ [s]) items)"

datatype attempt = Succeeded | RaisedSSL | RaisedOther

text \<open>
  The body of the \<open>try\<close> block, which the source writes twice in the same words (first
  attempt and retry): the request for the batch is executed and the items of the response
  are appended.
\<close>

definition try_batch ::
  "youtube \<Rightarrow> string list \<Rightarrow> video_stat list \<Rightarrow> attempt \<times> video_stat list \<times> youtube" where
  "try_batch yt batch_ids statistics =
     (case execute (VideosList batch_ids) yt of
        (NoFault, yt') \<Rightarrow>
          (case vid_items (videos yt' batch_ids) of
             None \<Rightarrow> (Succeeded, statistics, yt')
           | Some items \<Rightarrow>
               (case append_stats statistics items of
                  (statistics', None) \<Rightarrow> (Succeeded, statistics', yt')
                | (statistics', Some e) \<Rightarrow> (RaisedOther, statistics', yt')))
      | (SSLFault, yt') \<Rightarrow> (RaisedSSL, statistics, yt')
      | (OtherFault, yt') \<Rightarrow> (RaisedOther, statistics, yt'))"

text \<open>The \<open>while retries > 0\<close> loop inside the handler of \<open>ssl.SSLError\<close>.\<close>

function retry_batch ::
  "youtube \<Rightarrow> string list \<Rightarrow> video_stat list \<Rightarrow> int \<Rightarrow> (error + video_stat list) \<times> youtube" where
  "retry_batch yt batch_ids statistics retries =
     (if retries > 0 then
        (case try_batch yt batch_ids statistics of
           (Succeeded, statistics', yt') \<Rightarrow> (Inr statistics', yt')
         | (RaisedSSL, statistics', yt') \<Rightarrow>
             if retries - 1 = 0 then (Inl SSLError, yt')
             else retry_batch yt' batch_ids statistics' (retries - 1)
         | (RaisedOther, statistics', yt') \<Rightarrow> (Inr statistics', yt'))
      else (Inr statistics, yt))"
  by pat_completeness auto
termination
  by (relation "measure (\<lambda>(yt, batch_ids, statistics, retries). nat retries)") auto

text \<open>
  The loop \<open>for i in range(0, len(video_ids), 50)\<close> with \<open>batch_ids = video_ids[i:i+50]\<close>.
  The request carries \<open>','.join(batch_ids)\<close>; the model keeps the list.
\<close>

function stats_loop ::
  "youtube \<Rightarrow> string list \<Rightarrow> nat \<Rightarrow> video_stat list \<Rightarrow> (error + video_stat list) \<times> youtube" where
  "stats_loop yt video_ids i statistics =
     (if i < length video_ids then
        (case try_batch yt (take 50 (drop i video_ids)) statistics of
           (Succeeded, statistics', yt') \<Rightarrow> stats_loop yt' video_ids (i + 50) statistics'
         | (RaisedSSL, statistics', yt') \<Rightarrow>
             (case retry_batch yt' (take 50 (drop i video_ids)) statistics' 3 of
                (Inl e, yt'') \<Rightarrow> (Inl e, yt'')
              | (Inr statistics'', yt'') \<Rightarrow> stats_loop yt'' video_ids (i + 50) statistics'')
         | (RaisedOther, statistics', yt') \<Rightarrow> stats_loop yt' video_ids (i + 50) statistics')
      else (Inr statistics, yt))"
  by pat_completeness auto
termination
  by (relation "measure (\<lambda>(yt, video_ids, i, statistics). length video_ids - i)") auto

declare retry_batch.simps [simp del] stats_loop.simps [simp del]

definition get_videos_statistics ::
  "youtube \<Rightarrow> string list \<Rightarrow> (error + video_stat list) \<times> youtube" where
  "get_videos_statistics yt video_ids = stats_loop yt video_ids 0 []"

section \<open>\<open>extract_channel_id\<close>\<close>








section \<open>The moving average of \<open>handle_worker_finished\<close>\<close>




section \<open>A service that knows every video\<close>

text \<open>
  A client whose \<open>videos().list\<close> answers every id with a well-formed item; it serves to
  run the statistics loop on concrete ids.
\<close>

definition sample_item :: "string \<Rightarrow> video_item" where
  "sample_item v =
     \<lparr>item_id = Some v, item_statistics = Some (Numeric 7),
      item_snippet = Some \<lparr>publishedAt = Some ''2024-01-01T00:00:00Z'', snippet_title = Some v\<rparr>\<rparr>"

definition sample_stat :: "string \<Rightarrow> video_stat" where
  "sample_stat v =
     \<lparr>video_id = v, title = v, view_count = 7, upload_date = ''2024-01-01T00:00:00Z''\<rparr>"

definition video_service :: "fault list \<Rightarrow> youtube" where
  "video_service fs =
     \<lparr>channels_for_username = (\<lambda>_. \<lparr>id_items = None\<rparr>),
      search_channels = (\<lambda>_. \<lparr>id_items = None\<rparr>),
      playlist_items = (\<lambda>_ _ _. \<lparr>pl_items = None, nextPageToken = None\<rparr>),
      videos = (\<lambda>ids. \<lparr>vid_items = Some (map sample_item ids)\<rparr>),
      faults = fs, calls = []\<rparr>"

section \<open>Lemmas on the client and the pagination loops\<close>

lemma execute_simps:
  "fst (execute c yt) = next_fault yt" "snd (execute c yt) = advance c yt"
  by (simp_all add: execute_def)

lemma advance_simps [simp]:
  "faults (advance c yt) = tl (faults yt)"
  "calls (advance c yt) = calls yt @ [c]"
  "playlist_items (advance c yt) = playlist_items yt"
  "videos (advance c yt) = videos yt"
  by (simp_all add: advance_def)

lemma append_ids_map_Some [simp]: "append_ids ids (map Some xs) = Some (ids @ xs)"
  by (induction xs arbitrary: ids) simp_all

lemma all_loop_NoFault:
  assumes "next_fault yt = NoFault"
  shows "all_loop yt pid ids tok r =
     (let yt' = advance (PlaylistItems pid 50 tok) yt; response = playlist_items yt pid 50 tok in
           case pl_items response of
             None \<Rightarrow> Some (Inr ids, yt')
           | Some its \<Rightarrow>
               (case append_ids ids its of
                  None \<Rightarrow> Some (Inl KeyError, yt')
                | Some video_ids' \<Rightarrow>
                    if falsy (nextPageToken response) then Some (Inr video_ids', yt')
                    else all_loop yt' pid video_ids' (nextPageToken response) r))"
  by (subst all_loop.simps) (simp add: execute_def assms Let_def split: option.splits)

lemma all_loop_SSLFault:
  assumes "next_fault yt = SSLFault"
  shows "all_loop yt pid ids tok r =
     (if r - 1 > 0 then all_loop (advance (PlaylistItems pid 50 tok) yt) pid ids tok (r - 1)
      else Some (Inl SSLError, advance (PlaylistItems pid 50 tok) yt))"
  by (subst all_loop.simps) (simp add: execute_def assms)

lemma all_loop_OtherFault:
  assumes "next_fault yt = OtherFault"
  shows "all_loop yt pid ids tok r = Some (Inl RemoteError, advance (PlaylistItems pid 50 tok) yt)"
  by (subst all_loop.simps) (simp add: execute_def assms)


lemma upt_from_1_Suc: "[1..<Suc (Suc N)] = 1 # map Suc [1..<Suc N]"
proof -
  have "[1..<Suc (Suc N)] = 1 # [Suc 1..<Suc (Suc N)]"
    by (rule upt_conv_Cons) simp
  also have "[Suc 1..<Suc (Suc N)] = map Suc [1..<Suc N]"
    by (rule map_Suc_upt [symmetric])
  finally show ?thesis .
qed

lemma all_requests_from_step:
  "all_requests_from pid M off tok =
     PlaylistItems pid 50 tok #
       (if off + 50 < M then all_requests_from pid M (off + 50) (page_token (off + 50)) else [])"
proof (cases "off + 50 < M")
  case True
  then have "M - off - 1 = (M - (off + 50) - 1) + 50" by arith
  then have "(M - off - 1) div 50 = ((M - (off + 50) - 1) + 50) div 50" by (rule arg_cong)
  also have "\<dots> = Suc ((M - (off + 50) - 1) div 50)" by (subst div_add_self2) simp_all
  finally have d: "(M - off - 1) div 50 = Suc ((M - (off + 50) - 1) div 50)" .
  have "map (\<lambda>k. PlaylistItems pid 50 (page_token (off + 50 * k))) [1..<Suc (Suc N)]
      = PlaylistItems pid 50 (page_token (off + 50)) #
        map (\<lambda>k. PlaylistItems pid 50 (page_token (off + 50 + 50 * k))) [1..<Suc N]" for N
    by (simp only: upt_from_1_Suc list.map map_map o_def) (simp add: add.assoc)
  then show ?thesis
    unfolding all_requests_from_def d
    using True by simp
next
  case False
  then have "(M - off - 1) div 50 = 0" by simp
  then show ?thesis using False by (simp add: all_requests_from_def)
qed



lemma retry_log_ok: "fs = [] \<or> hd fs = NoFault \<Longrightarrow> retry_log fs (r # rs) = r # retry_log (tl fs) rs"
  by (cases fs) (auto, (case_tac rs; simp)?)

lemma retry_log_ssl: "fs \<noteq> [] \<Longrightarrow> hd fs = SSLFault \<Longrightarrow> retry_log fs (r # rs) = r # retry_log (tl fs) (r # rs)"
  by (cases fs) auto

lemma take_add_page: "take off pl @ take m (drop off pl) = take (off + m) pl"
  by (simp add: take_add)

lemma all_loop_service:
  assumes "playlist_items yt pid = playlist_page pl"
    and "OtherFault \<notin> set (faults yt)"
    and "ssl_count (faults yt) < r"
    and "ids = take (token_offset tok) pl"
  shows "\<exists>yt'. all_loop yt pid ids tok r = Some (Inr pl, yt') \<and>
           calls yt' = calls yt @ retry_log (faults yt) (all_requests_from pid (length pl) (token_offset tok) tok)"
  using assms
proof (induction "length (faults yt) + (length pl - token_offset tok)" arbitrary: yt ids tok r rule: less_induct)
  case less
  let ?c = "PlaylistItems pid 50 tok"
  let ?off = "token_offset tok"
  show ?case
  proof (cases "next_fault yt")
    case NoFault
    then have nf: "faults yt = [] \<or> hd (faults yt) = NoFault"
      by (auto simp: next_fault_def split: list.splits)
    show ?thesis
    proof (cases "?off + 50 < length pl")
      case True
      let ?yt = "advance ?c yt"
      let ?tok = "page_token (?off + 50)"
      have off': "token_offset ?tok = ?off + 50" by (simp add: page_token_def token_offset_def)
      have m: "length (faults ?yt) + (length pl - token_offset ?tok) < length (faults yt) + (length pl - ?off)"
        using True off' by simp
      have a2: "OtherFault \<notin> set (faults ?yt)" using less.prems(2) by (cases "faults yt") auto
      have a3: "ssl_count (faults ?yt) < r" using less.prems(3) nf
        by (cases "faults yt") (auto simp: ssl_count_def)
      have a4: "take (?off + 50) pl = take (token_offset ?tok) pl" using off' by simp
      from less.hyps [OF m _ a2 a3 a4] less.prems(1)
      obtain yt' where h: "all_loop ?yt pid (take (?off + 50) pl) ?tok r = Some (Inr pl, yt')"
        "calls yt' = calls ?yt @ retry_log (faults ?yt) (all_requests_from pid (length pl) (token_offset ?tok) ?tok)"
        by auto
      have "all_loop yt pid ids tok r = all_loop ?yt pid (take (?off + 50) pl) ?tok r"
        using NoFault True less.prems(1,4)
        by (simp add: all_loop_NoFault playlist_page_def falsy_def page_token_def take_add_page)
      moreover have "calls yt @ retry_log (faults yt) (all_requests_from pid (length pl) ?off tok)
          = calls ?yt @ retry_log (faults ?yt) (all_requests_from pid (length pl) (token_offset ?tok) ?tok)"
        using True nf off'
        by (subst all_requests_from_step) (simp add: retry_log_ok)
      ultimately show ?thesis using h by simp
    next
      case False
      have "all_loop yt pid ids tok r = Some (Inr pl, advance ?c yt)"
        using NoFault False less.prems(1,4)
        by (simp add: all_loop_NoFault playlist_page_def falsy_def take_add_page)
      moreover have "retry_log (faults yt) (all_requests_from pid (length pl) ?off tok) = [?c]"
        using False nf
        by (subst all_requests_from_step) (simp add: retry_log_ok)
      ultimately show ?thesis by simp
    qed
  next
    case SSLFault
    then have nf: "faults yt \<noteq> []" "hd (faults yt) = SSLFault"
      by (auto simp: next_fault_def split: list.splits)
    let ?yt = "advance ?c yt"
    have m: "length (faults ?yt) + (length pl - ?off) < length (faults yt) + (length pl - ?off)"
      using nf by simp
    have a2: "OtherFault \<notin> set (faults ?yt)" using less.prems(2) by (cases "faults yt") auto
    have a3: "ssl_count (faults ?yt) < r - 1" and r: "r - 1 > 0" using less.prems(3) nf
      by (cases "faults yt"; auto simp: ssl_count_def)+
    from less.hyps [OF m _ a2 a3 less.prems(4)] less.prems(1)
    obtain yt' where h: "all_loop ?yt pid ids tok (r - 1) = Some (Inr pl, yt')"
        "calls yt' = calls ?yt @ retry_log (faults ?yt) (all_requests_from pid (length pl) ?off tok)"
      by auto
    have "all_loop yt pid ids tok r = all_loop ?yt pid ids tok (r - 1)"
      using SSLFault r by (simp add: all_loop_SSLFault)
    moreover have "calls yt @ retry_log (faults yt) (all_requests_from pid (length pl) ?off tok)
          = calls ?yt @ retry_log (faults ?yt) (all_requests_from pid (length pl) ?off tok)"
      using nf by (subst all_requests_from_step, subst (2) all_requests_from_step) (simp add: retry_log_ssl)
    ultimately show ?thesis using h by simp
  next
    case OtherFault
    then have "OtherFault \<in> set (faults yt)"
      by (auto simp: next_fault_def split: list.splits)
    with less.prems(2) show ?thesis by simp
  qed
qed



lemma last_n_loop_done:
  "\<not> int (length ids) < n \<Longrightarrow> last_n_loop yt pid n ids tok r = Some (Inr ids, yt)"
  by (subst last_n_loop.simps) simp

lemma last_n_loop_NoFault:
  assumes "int (length ids) < n" "next_fault yt = NoFault"
  shows "last_n_loop yt pid n ids tok r =
     (let c = PlaylistItems pid (min (n - int (length ids)) 50) tok;
          yt' = advance c yt;
          response = playlist_items yt' pid (min (n - int (length ids)) 50) tok in
           case pl_items response of
             None \<Rightarrow> Some (Inr ids, yt')
           | Some its \<Rightarrow>
               (case append_ids_n n ids its of
                  None \<Rightarrow> Some (Inl KeyError, yt')
                | Some video_ids' \<Rightarrow>
                    if falsy (nextPageToken response) then Some (Inr video_ids', yt')
                    else last_n_loop yt' pid n video_ids' (nextPageToken response) r))"
  by (subst last_n_loop.simps) (simp add: execute_def assms Let_def split: option.splits)

lemma last_n_loop_SSLFault:
  assumes "int (length ids) < n" "next_fault yt = SSLFault"
  shows "last_n_loop yt pid n ids tok r =
     (if r - 1 > 0
      then last_n_loop (advance (PlaylistItems pid (min (n - int (length ids)) 50) tok) yt) pid n ids tok (r - 1)
      else Some (Inl SSLError, advance (PlaylistItems pid (min (n - int (length ids)) 50) tok) yt))"
  by (subst last_n_loop.simps) (simp add: execute_def assms)

lemma last_n_loop_OtherFault:
  assumes "int (length ids) < n" "next_fault yt = OtherFault"
  shows "last_n_loop yt pid n ids tok r =
     Some (Inl RemoteError, advance (PlaylistItems pid (min (n - int (length ids)) 50) tok) yt)"
  by (subst last_n_loop.simps) (simp add: execute_def assms)

lemma append_ids_n_map_Some:
  "int (length ids) < n \<Longrightarrow> int (length ids + length xs) \<le> n
     \<Longrightarrow> append_ids_n n ids (map Some xs) = Some (ids @ xs)"
proof (induction xs arbitrary: ids)
  case Nil
  then show ?case by simp
next
  case (Cons x xs)
  show ?case
  proof (cases "int (length (ids @ [x])) = n")
    case True
    with Cons.prems have "int (length xs) \<le> 0" by (simp only: length_append list.size of_nat_add)
    then have "xs = []" by simp
    with True show ?thesis by simp
  next
    case False
    with Cons.prems have "int (length (ids @ [x])) < n" by simp
    moreover from Cons.prems have "int (length (ids @ [x]) + length xs) \<le> n" by simp
    ultimately have "append_ids_n n (ids @ [x]) (map Some xs) = Some ((ids @ [x]) @ xs)"
      by (rule Cons.IH)
    with False show ?thesis by simp
  qed
qed

lemma n_requests_from_step:
  "n_requests_from pid n M off tok =
     PlaylistItems pid (min (n - int off) 50) tok #
       (if off + 50 < min (nat n) M
        then n_requests_from pid n M (off + 50) (page_token (off + 50)) else [])"
proof (cases "off + 50 < min (nat n) M")
  case True
  let ?L = "min (nat n) M"
  from True have "?L - off - 1 = (?L - (off + 50) - 1) + 50" by arith
  then have "(?L - off - 1) div 50 = ((?L - (off + 50) - 1) + 50) div 50" by (rule arg_cong)
  also have "\<dots> = Suc ((?L - (off + 50) - 1) div 50)" by (subst div_add_self2) simp_all
  finally have d: "(?L - off - 1) div 50 = Suc ((?L - (off + 50) - 1) div 50)" .
  have "map (\<lambda>k. PlaylistItems pid (min (n - int (off + 50 * k)) 50) (page_token (off + 50 * k))) [1..<Suc (Suc N)]
      = PlaylistItems pid (min (n - int (off + 50)) 50) (page_token (off + 50)) #
        map (\<lambda>k. PlaylistItems pid (min (n - int (off + 50 + 50 * k)) 50) (page_token (off + 50 + 50 * k))) [1..<Suc N]" for N
    by (simp only: upt_from_1_Suc list.map map_map o_def) (simp add: add.assoc)
  then show ?thesis
    unfolding n_requests_from_def d
    using True by simp
next
  case False
  then have "min (nat n) M - off - 1 < 50" by linarith
  then have z: "(min (nat n) M - off - 1) div 50 = 0" by (rule div_less)
  show ?thesis unfolding n_requests_from_def z using False by simp
qed

lemma falsy_page_token: "0 < k \<Longrightarrow> \<not> falsy (page_token k)"
  by (simp add: falsy_def page_token_def)

lemma falsy_None: "falsy None"
  by (simp add: falsy_def)

lemma playlist_page_items:
  "pl_items (playlist_page pl m tok) = Some (map Some (take (nat m) (drop (token_offset tok) pl)))"
  by (simp add: playlist_page_def)

lemma playlist_page_token:
  "nextPageToken (playlist_page pl m tok) =
     (if token_offset tok + nat m < length pl then page_token (token_offset tok + nat m) else None)"
  by (simp add: playlist_page_def)

lemma last_n_loop_service:
  assumes "playlist_items yt pid = playlist_page pl"
    and "OtherFault \<notin> set (faults yt)"
    and "ssl_count (faults yt) < r"
    and "ids = take (token_offset tok) pl"
    and "token_offset tok \<le> length pl"
    and "int (token_offset tok) < n"
  shows "\<exists>yt'. last_n_loop yt pid n ids tok r = Some (Inr (take (nat n) pl), yt') \<and>
           calls yt' = calls yt @ retry_log (faults yt) (n_requests_from pid n (length pl) (token_offset tok) tok)"
  using assms
proof (induction "length (faults yt) + (length pl - token_offset tok)" arbitrary: yt ids tok r rule: less_induct)
  case less
  define off where "off = token_offset tok"
  define mi where "mi = min (n - int off) 50"
  define m where "m = nat mi"
  define c where "c = PlaylistItems pid mi tok"
  define yt1 where "yt1 = advance c yt"
  have len: "length ids = off" using less.prems(4,5) by (simp add: off_def)
  have ids: "ids = take off pl" using less.prems(4) by (simp add: off_def)
  have offn: "int off < n" using less.prems(6) by (simp add: off_def)
  have enter: "int (length ids) < n" using len offn by simp
  have mi: "0 < mi" "mi \<le> 50" "int off + mi \<le> n" "mi = 50 \<or> int off + mi = n"
    using offn by (auto simp: mi_def)
  have m: "0 < m" "m \<le> 50" "int m = mi" using mi by (auto simp: m_def)
  have yt1: "faults yt1 = tl (faults yt)" "calls yt1 = calls yt @ [c]" "playlist_items yt1 pid = playlist_page pl"
    using less.prems(1) by (simp_all add: yt1_def)
  have a2: "OtherFault \<notin> set (faults yt1)" using less.prems(2) yt1(1) by (cases "faults yt") auto
  have reqs: "n_requests_from pid n (length pl) off tok =
       c # (if off + 50 < min (nat n) (length pl)
            then n_requests_from pid n (length pl) (off + 50) (page_token (off + 50)) else [])"
    unfolding c_def mi_def by (rule n_requests_from_step)
  show ?case
  proof (cases "next_fault yt")
    case NoFault
    then have nf: "faults yt = [] \<or> hd (faults yt) = NoFault"
      by (auto simp: next_fault_def split: list.splits)
    have a3: "ssl_count (faults yt1) < r" using less.prems(3) nf yt1(1)
      by (cases "faults yt") (auto simp: ssl_count_def)
    have unfold: "last_n_loop yt pid n ids tok r =
       (case append_ids_n n ids (map Some (take m (drop off pl))) of
          None \<Rightarrow> Some (Inl KeyError, yt1)
        | Some video_ids' \<Rightarrow>
            if falsy (if off + m < length pl then page_token (off + m) else None)
            then Some (Inr video_ids', yt1)
            else last_n_loop yt1 pid n video_ids'
                   (if off + m < length pl then page_token (off + m) else None) r)"
      unfolding last_n_loop_NoFault [OF enter NoFault] Let_def len
      unfolding mi_def [symmetric] c_def [symmetric] yt1_def [symmetric] yt1(3)
        playlist_page_items playlist_page_token m_def [symmetric] off_def [symmetric]
      by simp
    have app: "append_ids_n n ids (map Some (take m (drop off pl))) = Some (take (off + m) pl)"
    proof -
      have "int (length (take m (drop off pl))) \<le> int m" by simp
      then have "int (length ids + length (take m (drop off pl))) \<le> n"
        using len mi(3) m(3) by linarith
      with enter have "append_ids_n n ids (map Some (take m (drop off pl))) = Some (ids @ take m (drop off pl))"
        by (rule append_ids_n_map_Some)
      then show ?thesis unfolding ids by (simp only: take_add_page)
    qed
    show ?thesis
    proof (cases "off + m < length pl")
      case True
      define tok1 where "tok1 = page_token (off + m)"
      have off1: "token_offset tok1 = off + m" by (simp add: page_token_def token_offset_def tok1_def)
      have "\<not> falsy tok1" unfolding tok1_def using m(1) by (intro falsy_page_token) simp
      then have step: "last_n_loop yt pid n ids tok r = last_n_loop yt1 pid n (take (off + m) pl) tok1 r"
        unfolding unfold app using True by (simp add: tok1_def)
      show ?thesis
      proof (cases "int (off + m) < n")
        case go: True
        then have m50: "m = 50" using mi(4) m(3) by linarith
        have meas: "length (faults yt1) + (length pl - token_offset tok1) < length (faults yt) + (length pl - token_offset tok)"
          unfolding yt1(1) off1 off_def [symmetric] using True m(1) by simp
        have a4: "take (off + m) pl = take (token_offset tok1) pl" by (simp only: off1)
        have a5: "token_offset tok1 \<le> length pl" unfolding off1 using True by simp
        have a6: "int (token_offset tok1) < n" unfolding off1 using go .
        from less.hyps [OF meas yt1(3) a2 a3 a4 a5 a6]
        obtain yt' where h: "last_n_loop yt1 pid n (take (off + m) pl) tok1 r = Some (Inr (take (nat n) pl), yt')"
          "calls yt' = calls yt1 @ retry_log (faults yt1) (n_requests_from pid n (length pl) (token_offset tok1) tok1)"
          by auto
        have "off + 50 < min (nat n) (length pl)" using True go m50 by simp
        then have "n_requests_from pid n (length pl) off tok
          = c # n_requests_from pid n (length pl) (off + 50) (page_token (off + 50))"
          unfolding reqs by (rule if_P [THEN arg_cong])
        then have "retry_log (faults yt) (n_requests_from pid n (length pl) off tok)
          = c # retry_log (faults yt1) (n_requests_from pid n (length pl) (token_offset tok1) tok1)"
          unfolding off1 yt1(1) using nf m50 by (simp add: retry_log_ok tok1_def)
        with step h yt1(2) show ?thesis unfolding off_def [symmetric] by simp
      next
        case stop: False
        then have eq: "off + m = nat n" using mi(3) m(3) by linarith
        have "last_n_loop yt1 pid n (take (off + m) pl) tok1 r = Some (Inr (take (off + m) pl), yt1)"
          using stop True by (intro last_n_loop_done) simp
        moreover have "\<not> off + 50 < min (nat n) (length pl)" using eq m(2) by simp
        then have "n_requests_from pid n (length pl) off tok = [c]"
          unfolding reqs by (rule if_not_P [THEN arg_cong])
        then have "retry_log (faults yt) (n_requests_from pid n (length pl) off tok) = [c]"
          using nf by (simp add: retry_log_ok)
        ultimately show ?thesis using step yt1(2) eq unfolding off_def [symmetric] by simp
      qed
    next
      case False
      have ge: "length pl \<le> nat n" using False mi(3) m(3) by linarith
      have "last_n_loop yt pid n ids tok r = Some (Inr (take (off + m) pl), yt1)"
        unfolding unfold app using False falsy_None by simp
      moreover have "take (off + m) pl = take (nat n) pl" using False ge by simp
      moreover have "\<not> off + 50 < min (nat n) (length pl)" using False m(2) mi(4) m(3) ge by linarith
      then have "n_requests_from pid n (length pl) off tok = [c]"
        unfolding reqs by (rule if_not_P [THEN arg_cong])
      then have "retry_log (faults yt) (n_requests_from pid n (length pl) off tok) = [c]"
        using nf by (simp add: retry_log_ok)
      ultimately show ?thesis using yt1(2) unfolding off_def [symmetric] by simp
    qed
  next
    case SSLFault
    then have nf: "faults yt \<noteq> []" "hd (faults yt) = SSLFault"
      by (auto simp: next_fault_def split: list.splits)
    have meas: "length (faults yt1) + (length pl - token_offset tok) < length (faults yt) + (length pl - token_offset tok)"
      unfolding yt1(1) using nf by simp
    have a3: "ssl_count (faults yt1) < r - 1" and r: "r - 1 > 0" using less.prems(3) nf yt1(1)
      by (cases "faults yt"; auto simp: ssl_count_def)+
    from less.hyps [OF meas yt1(3) a2 a3 less.prems(4,5,6)]
    obtain yt' where h: "last_n_loop yt1 pid n ids tok (r - 1) = Some (Inr (take (nat n) pl), yt')"
        "calls yt' = calls yt1 @ retry_log (faults yt1) (n_requests_from pid n (length pl) (token_offset tok) tok)"
      by auto
    have "last_n_loop yt pid n ids tok r = last_n_loop yt1 pid n ids tok (r - 1)"
      unfolding last_n_loop_SSLFault [OF enter SSLFault] len
      unfolding mi_def [symmetric] c_def [symmetric] yt1_def [symmetric]
      using r by simp
    moreover have "retry_log (faults yt) (n_requests_from pid n (length pl) off tok)
          = c # retry_log (faults yt1) (n_requests_from pid n (length pl) off tok)"
      unfolding reqs yt1(1) using nf by (simp add: retry_log_ssl)
    ultimately show ?thesis using h yt1(2) unfolding off_def [symmetric] by simp
  next
    case OtherFault
    then have "OtherFault \<in> set (faults yt)"
      by (auto simp: next_fault_def split: list.splits)
    with less.prems(2) show ?thesis by simp
  qed
qed

lemma pages_step:
  assumes "Suc k < Suc ((L - off - 1) div 50)"
  shows "off + 50 < L" and "k < Suc ((L - (off + 50) - 1) div 50)"
proof -
  from assms have "1 \<le> (L - off - 1) div 50" by simp
  then have "50 \<le> L - off - 1" by (simp add: less_eq_div_iff_mult_less_eq)
  then show lt: "off + 50 < L" by linarith
  then have "L - off - 1 = (L - (off + 50) - 1) + 50" by arith
  then have "(L - off - 1) div 50 = ((L - (off + 50) - 1) + 50) div 50" by (rule arg_cong)
  also have "\<dots> = Suc ((L - (off + 50) - 1) div 50)" by (subst div_add_self2) simp_all
  finally show "k < Suc ((L - (off + 50) - 1) div 50)" using assms by simp
qed

lemma all_loop_third_ssl:
  assumes "playlist_items yt pid = playlist_page pl"
    and "faults yt = pre @ SSLFault # post"
    and "OtherFault \<notin> set pre"
    and "ssl_count pre = r - 1"
    and "ok_count pre < Suc ((length pl - token_offset tok - 1) div 50)"
    and "ids = take (token_offset tok) pl"
  shows "\<exists>yt'. all_loop yt pid ids tok r = Some (Inl SSLError, yt') \<and> faults yt' = post \<and>
           length (calls yt') = length (calls yt) + Suc (length pre)"
  using assms
proof (induction pre arbitrary: yt ids tok r)
  case Nil
  then have nf: "next_fault yt = SSLFault" and r: "\<not> r - 1 > 0"
    by (simp_all add: next_fault_def ssl_count_def)
  show ?case
    unfolding all_loop_SSLFault [OF nf] using r Nil.prems(2) by simp
next
  case (Cons f pre)
  let ?c = "PlaylistItems pid 50 tok"
  let ?yt = "advance ?c yt"
  let ?off = "token_offset tok"
  have f1: "faults ?yt = pre @ SSLFault # post" using Cons.prems(2) by simp
  have s1: "playlist_items ?yt pid = playlist_page pl" using Cons.prems(1) by simp
  have o1: "OtherFault \<notin> set pre" using Cons.prems(3) by simp
  show ?case
  proof (cases f)
    case NoFault
    then have nf: "next_fault yt = NoFault" using Cons.prems(2) by (simp add: next_fault_def)
    have "Suc (ok_count pre) < Suc ((length pl - ?off - 1) div 50)"
      using Cons.prems(5) NoFault by (simp add: ok_count_def)
    then have lt: "?off + 50 < length pl"
      and k: "ok_count pre < Suc ((length pl - (?off + 50) - 1) div 50)"
      by (rule pages_step)+
    let ?tok = "page_token (?off + 50)"
    have off': "token_offset ?tok = ?off + 50" by (simp add: page_token_def token_offset_def)
    have c1: "ssl_count pre = r - 1" using Cons.prems(4) NoFault by (simp add: ssl_count_def)
    have k1: "ok_count pre < Suc ((length pl - token_offset ?tok - 1) div 50)"
      unfolding off' by (rule k)
    have i1: "take (?off + 50) pl = take (token_offset ?tok) pl" by (simp only: off')
    from Cons.IH [OF s1 f1 o1 c1 k1 i1]
    obtain yt' where h: "all_loop ?yt pid (take (?off + 50) pl) ?tok r = Some (Inl SSLError, yt')"
      "faults yt' = post" "length (calls yt') = length (calls ?yt) + Suc (length pre)"
      by auto
    have "all_loop yt pid ids tok r = all_loop ?yt pid (take (?off + 50) pl) ?tok r"
      using nf lt Cons.prems(1,6)
      by (simp add: all_loop_NoFault playlist_page_def falsy_def page_token_def take_add_page)
    with h show ?thesis by simp
  next
    case SSLFault
    then have nf: "next_fault yt = SSLFault" using Cons.prems(2) by (simp add: next_fault_def)
    have c1: "ssl_count pre = (r - 1) - 1" and r: "r - 1 > 0"
      using Cons.prems(4) SSLFault by (simp_all add: ssl_count_def)
    have k1: "ok_count pre < Suc ((length pl - ?off - 1) div 50)"
      using Cons.prems(5) SSLFault by (simp add: ok_count_def)
    from Cons.IH [OF s1 f1 o1 c1 k1 Cons.prems(6)]
    obtain yt' where h: "all_loop ?yt pid ids tok (r - 1) = Some (Inl SSLError, yt')"
      "faults yt' = post" "length (calls yt') = length (calls ?yt) + Suc (length pre)"
      by auto
    have "all_loop yt pid ids tok r = all_loop ?yt pid ids tok (r - 1)"
      unfolding all_loop_SSLFault [OF nf] using r by simp
    with h show ?thesis by simp
  next
    case OtherFault
    with Cons.prems(3) show ?thesis by simp
  qed
qed

lemma last_n_loop_third_ssl:
  assumes "playlist_items yt pid = playlist_page pl"
    and "faults yt = pre @ SSLFault # post"
    and "OtherFault \<notin> set pre"
    and "ssl_count pre = r - 1"
    and "ok_count pre < Suc ((min (nat n) (length pl) - token_offset tok - 1) div 50)"
    and "ids = take (token_offset tok) pl"
    and "token_offset tok \<le> length pl"
    and "int (token_offset tok) < n"
  shows "\<exists>yt'. last_n_loop yt pid n ids tok r = Some (Inl SSLError, yt') \<and> faults yt' = post \<and>
           length (calls yt') = length (calls yt) + Suc (length pre)"
  using assms
proof (induction pre arbitrary: yt ids tok r)
  case Nil
  then have nf: "next_fault yt = SSLFault" and r: "\<not> r - 1 > 0"
    by (simp_all add: next_fault_def ssl_count_def)
  have enter: "int (length ids) < n" using Nil.prems(6,7,8) by simp
  show ?case
    unfolding last_n_loop_SSLFault [OF enter nf] using r Nil.prems(2) by simp
next
  case (Cons f pre)
  define off where "off = token_offset tok"
  define mi where "mi = min (n - int off) 50"
  define c where "c = PlaylistItems pid mi tok"
  define yt1 where "yt1 = advance c yt"
  have len: "length ids = off" using Cons.prems(6,7) by (simp add: off_def)
  have ids: "ids = take off pl" using Cons.prems(6) by (simp add: off_def)
  have offn: "int off < n" using Cons.prems(8) by (simp add: off_def)
  have enter: "int (length ids) < n" using len offn by simp
  have f1: "faults yt1 = pre @ SSLFault # post" using Cons.prems(2) by (simp add: yt1_def)
  have s1: "playlist_items yt1 pid = playlist_page pl" using Cons.prems(1) by (simp add: yt1_def)
  have cl: "length (calls yt1) = Suc (length (calls yt))" by (simp add: yt1_def)
  have o1: "OtherFault \<notin> set pre" using Cons.prems(3) by simp
  show ?case
  proof (cases f)
    case NoFault
    then have nf: "next_fault yt = NoFault" using Cons.prems(2) by (simp add: next_fault_def)
    have "Suc (ok_count pre) < Suc ((min (nat n) (length pl) - off - 1) div 50)"
      using Cons.prems(5) NoFault by (simp add: ok_count_def off_def)
    then have lt: "off + 50 < min (nat n) (length pl)"
      and k: "ok_count pre < Suc ((min (nat n) (length pl) - (off + 50) - 1) div 50)"
      by (rule pages_step)+
    have m50: "mi = 50" unfolding mi_def using lt by linarith
    define tok1 where "tok1 = page_token (off + 50)"
    have off1: "token_offset tok1 = off + 50" by (simp add: page_token_def token_offset_def tok1_def)
    have nfl: "\<not> falsy tok1" unfolding tok1_def by (intro falsy_page_token) simp
    have c1: "ssl_count pre = r - 1" using Cons.prems(4) NoFault by (simp add: ssl_count_def)
    have k1: "ok_count pre < Suc ((min (nat n) (length pl) - token_offset tok1 - 1) div 50)"
      unfolding off1 by (rule k)
    have i1: "take (off + 50) pl = take (token_offset tok1) pl" by (simp only: off1)
    have b1: "token_offset tok1 \<le> length pl" unfolding off1 using lt by simp
    have n1: "int (token_offset tok1) < n" unfolding off1 using lt by linarith
    from Cons.IH [OF s1 f1 o1 c1 k1 i1 b1 n1]
    obtain yt' where h: "last_n_loop yt1 pid n (take (off + 50) pl) tok1 r = Some (Inl SSLError, yt')"
      "faults yt' = post" "length (calls yt') = length (calls yt1) + Suc (length pre)"
      by auto
    have app: "append_ids_n n ids (map Some (take 50 (drop off pl))) = Some (take (off + 50) pl)"
    proof -
      have "length (take 50 (drop off pl)) \<le> 50" by simp
      then have "int (length ids + length (take 50 (drop off pl))) \<le> n"
        using len lt by linarith
      with enter have "append_ids_n n ids (map Some (take 50 (drop off pl))) = Some (ids @ take 50 (drop off pl))"
        by (rule append_ids_n_map_Some)
      then show ?thesis unfolding ids by (simp only: take_add_page)
    qed
    have "last_n_loop yt pid n ids tok r = last_n_loop yt1 pid n (take (off + 50) pl) tok1 r"
      unfolding last_n_loop_NoFault [OF enter nf] Let_def len
      unfolding mi_def [symmetric] c_def [symmetric] yt1_def [symmetric] s1
        playlist_page_items playlist_page_token off_def [symmetric]
      using lt nfl app by (simp add: tok1_def m50)
    with h cl show ?thesis by simp
  next
    case SSLFault
    then have nf: "next_fault yt = SSLFault" using Cons.prems(2) by (simp add: next_fault_def)
    have c1: "ssl_count pre = (r - 1) - 1" and r: "r - 1 > 0"
      using Cons.prems(4) SSLFault by (simp_all add: ssl_count_def)
    have k1: "ok_count pre < Suc ((min (nat n) (length pl) - token_offset tok - 1) div 50)"
      using Cons.prems(5) SSLFault by (simp add: ok_count_def)
    from Cons.IH [OF s1 f1 o1 c1 k1 Cons.prems(6,7,8)]
    obtain yt' where h: "last_n_loop yt1 pid n ids tok (r - 1) = Some (Inl SSLError, yt')"
      "faults yt' = post" "length (calls yt') = length (calls yt1) + Suc (length pre)"
      by auto
    have "last_n_loop yt pid n ids tok r = last_n_loop yt1 pid n ids tok (r - 1)"
      unfolding last_n_loop_SSLFault [OF enter nf] len
      unfolding mi_def [symmetric] c_def [symmetric] yt1_def [symmetric]
      using r by simp
    with h cl show ?thesis by simp
  next
    case OtherFault
    with Cons.prems(3) show ?thesis by simp
  qed
qed


lemma n_requests_closed:
  "n_requests_from pid n M 0 None =
     map (\<lambda>k. PlaylistItems pid (min (n - int (50 * k)) 50) (if k = 0 then None else page_token (50 * k)))
       [0..<Suc ((min (nat n) M - 1) div 50)]"
proof -
  have "[0..<Suc ((min (nat n) M - 1) div 50)] = 0 # [1..<Suc ((min (nat n) M - 1) div 50)]"
    by (simp add: upt_conv_Cons del: upt_Suc)
  then show ?thesis
    by (simp add: n_requests_from_def del: upt_Suc)
qed

lemma retry_log_Nil: "retry_log [] rs = rs"
  by (cases rs) simp_all




section \<open>Lemmas on the statistics loop\<close>

lemma try_batch_Other:
  "next_fault yt = OtherFault \<Longrightarrow> try_batch yt b st = (RaisedOther, st, advance (VideosList b) yt)"
  by (simp add: try_batch_def execute_def)

lemma try_batch_SSL:
  "next_fault yt = SSLFault \<Longrightarrow> try_batch yt b st = (RaisedSSL, st, advance (VideosList b) yt)"
  by (simp add: try_batch_def execute_def)

lemma try_batch_NoFault:
  "next_fault yt = NoFault \<Longrightarrow> try_batch yt b st =
     (case vid_items (videos yt b) of
        None \<Rightarrow> (Succeeded, st, advance (VideosList b) yt)
      | Some items \<Rightarrow>
          (case append_stats st items of
             (st', None) \<Rightarrow> (Succeeded, st', advance (VideosList b) yt)
           | (st', Some e) \<Rightarrow> (RaisedOther, st', advance (VideosList b) yt)))"
  by (simp add: try_batch_def execute_def)

lemma try_batch_state: "snd (snd (try_batch yt b st)) = advance (VideosList b) yt"
  by (cases "next_fault yt")
     (simp_all add: try_batch_NoFault try_batch_SSL try_batch_Other split: option.splits prod.splits)

lemma try_batch_RaisedSSL:
  "fst (try_batch yt b st) = RaisedSSL \<longleftrightarrow> next_fault yt = SSLFault"
  by (cases "next_fault yt")
     (simp_all add: try_batch_NoFault try_batch_SSL try_batch_Other split: option.splits prod.splits)

lemma try_batch_RaisedSSL_stats:
  "try_batch yt b st = (RaisedSSL, st', yt') \<Longrightarrow> st' = st"
  by (cases "next_fault yt")
     (auto simp add: try_batch_NoFault try_batch_SSL try_batch_Other split: option.splits prod.splits)

lemma append_stats_prefix: "append_stats st items = (st', e) \<Longrightarrow> prefix st st'"
proof (induction items arbitrary: st)
  case Nil
  then show ?case by simp
next
  case (Cons it items)
  show ?case
  proof (cases "parse_item it")
    case (Inl a)
    with Cons.prems show ?thesis by simp
  next
    case (Inr r)
    with Cons.prems have "append_stats (st @ [r]) items = (st', e)" by simp
    then have "prefix (st @ [r]) st'" by (rule Cons.IH)
    then show ?thesis by (rule append_prefixD)
  qed
qed

lemma append_stats_length:
  "append_stats st items = (st', None) \<Longrightarrow> length st' = length st + length items"
proof (induction items arbitrary: st)
  case Nil
  then show ?case by simp
next
  case (Cons it items)
  show ?case
  proof (cases "parse_item it")
    case (Inl a)
    with Cons.prems show ?thesis by simp
  next
    case (Inr r)
    with Cons.prems have "append_stats (st @ [r]) items = (st', None)" by simp
    then have "length st' = length (st @ [r]) + length items" by (rule Cons.IH)
    then show ?thesis by simp
  qed
qed

lemma try_batch_prefix: "try_batch yt b st = (a, st', yt') \<Longrightarrow> prefix st st'"
  by (cases "next_fault yt")
     (auto simp add: try_batch_NoFault try_batch_SSL try_batch_Other
        split: option.splits prod.splits dest: append_stats_prefix)

lemma retry_batch_done: "\<not> r > 0 \<Longrightarrow> retry_batch yt b st r = (Inr st, yt)"
  by (simp add: retry_batch.simps)

lemma retry_batch_step:
  assumes "r > 0" and "try_batch yt b st = (a, st1, yt1)"
  shows "retry_batch yt b st r =
     (if a = RaisedSSL
      then (if r - 1 = 0 then (Inl SSLError, yt1) else retry_batch yt1 b st1 (r - 1))
      else (Inr st1, yt1))"
  using assms by (cases a) (simp_all add: retry_batch.simps)

lemma retry_batch_prefix:
  "retry_batch yt b st r = (Inr st', yt') \<Longrightarrow> prefix st st'"
proof (induction "nat r" arbitrary: yt st r)
  case 0
  then have "\<not> r > 0" by simp
  with "0.prems" show ?case by (simp add: retry_batch_done)
next
  case (Suc n)
  then have pos: "r > 0" and n: "n = nat (r - 1)" by simp_all
  obtain a st1 yt1 where t: "try_batch yt b st = (a, st1, yt1)" by (cases "try_batch yt b st")
  then have p: "prefix st st1" by (rule try_batch_prefix)
  note u = retry_batch_step [OF pos t]
  show ?case
  proof (cases "a = RaisedSSL \<and> r - 1 \<noteq> 0")
    case True
    with u Suc.prems have "retry_batch yt1 b st1 (r - 1) = (Inr st', yt')" by simp
    then have "prefix st1 st'" by (rule Suc.hyps(1) [OF n])
    with p show ?thesis by (rule prefix_order.trans)
  next
    case False
    with u Suc.prems have "st' = st1" by (auto split: if_splits)
    with p show ?thesis by simp
  qed
qed

lemma retry_batch_faults:
  "retry_batch yt b st r = (res, yt') \<Longrightarrow> \<exists>k. faults yt' = drop k (faults yt)"
proof (induction "nat r" arbitrary: yt st r)
  case 0
  then have "\<not> r > 0" by simp
  with "0.prems" have "yt' = yt" by (simp add: retry_batch_done)
  then have "faults yt' = drop 0 (faults yt)" by simp
  then show ?case ..
next
  case (Suc n)
  then have pos: "r > 0" and n: "n = nat (r - 1)" by simp_all
  obtain a st1 yt1 where t: "try_batch yt b st = (a, st1, yt1)" by (cases "try_batch yt b st")
  have "yt1 = advance (VideosList b) yt" using try_batch_state [of yt b st] t by simp
  then have f1: "faults yt1 = drop 1 (faults yt)" by (simp add: drop_Suc)
  note u = retry_batch_step [OF pos t]
  show ?case
  proof (cases "a = RaisedSSL \<and> r - 1 \<noteq> 0")
    case True
    with u Suc.prems have "retry_batch yt1 b st1 (r - 1) = (res, yt')" by simp
    then obtain k where "faults yt' = drop k (faults yt1)"
      using Suc.hyps(1) [OF n] by blast
    then have "faults yt' = drop (k + 1) (faults yt)" using f1 by simp
    then show ?thesis ..
  next
    case False
    with u Suc.prems have "yt' = yt1" by (auto split: if_splits)
    with f1 show ?thesis by blast
  qed
qed

lemma retry_batch_raises:
  "retry_batch yt b st r = (Inl e, yt') \<Longrightarrow>
     e = SSLError \<and> (\<exists>post. faults yt = replicate (nat r) SSLFault @ post)"
proof (induction "nat r" arbitrary: yt st r)
  case 0
  then have "\<not> r > 0" by simp
  with "0.prems" show ?case by (simp add: retry_batch_done)
next
  case (Suc n)
  then have pos: "r > 0" and n: "n = nat (r - 1)" and r: "nat r = Suc n" by simp_all
  obtain a st1 yt1 where t: "try_batch yt b st = (a, st1, yt1)" by (cases "try_batch yt b st")
  have y1: "yt1 = advance (VideosList b) yt" using try_batch_state [of yt b st] t by simp
  note u = retry_batch_step [OF pos t]
  show ?case
  proof (cases "a = RaisedSSL")
    case False
    with u Suc.prems show ?thesis by simp
  next
    case True
    then have "next_fault yt = SSLFault" using try_batch_RaisedSSL [of yt b st] t by simp
    then obtain fs where fs: "faults yt = SSLFault # fs"
      by (auto simp: next_fault_def split: list.splits)
    then have f1: "faults yt1 = fs" using y1 by simp
    show ?thesis
    proof (cases "r - 1 = 0")
      case z: True
      then have "n = 0" using n by simp
      with u True z Suc.prems fs r show ?thesis by simp
    next
      case nz: False
      with u True Suc.prems have "retry_batch yt1 b st1 (r - 1) = (Inl e, yt')" by simp
      then have "e = SSLError \<and> (\<exists>post. faults yt1 = replicate (nat (r - 1)) SSLFault @ post)"
        by (rule Suc.hyps(1) [OF n])
      then show ?thesis using fs f1 r n by auto
    qed
  qed
qed

lemma advance_pow [simp]:
  "faults ((advance c ^^ k) yt) = drop k (faults yt)"
  "calls ((advance c ^^ k) yt) = calls yt @ replicate k c"
  "videos ((advance c ^^ k) yt) = videos yt"
  "playlist_items ((advance c ^^ k) yt) = playlist_items yt"
proof (induction k arbitrary: yt)
  case 0
  { case 1 show ?case by simp }
  { case 2 show ?case by simp }
  { case 3 show ?case by simp }
  { case 4 show ?case by simp }
next
  case (Suc k)
  { case 1 show ?case by (simp add: Suc.IH(1) drop_Suc tl_drop) }
  { case 2 show ?case by (simp add: Suc.IH(2) replicate_append_same) }
  { case 3 show ?case by (simp add: Suc.IH(3)) }
  { case 4 show ?case by (simp add: Suc.IH(4)) }
qed

lemma next_fault_SSL_iff: "next_fault yt = SSLFault \<longleftrightarrow> take 1 (faults yt) = [SSLFault]"
  by (cases "faults yt") (simp_all add: next_fault_def)

lemma take_Suc_replicate:
  "take (Suc k) fs = replicate (Suc k) x \<longleftrightarrow> take 1 fs = [x] \<and> take k (tl fs) = replicate k x"
  by (cases fs) auto

lemma retry_batch_exhaust:
  assumes "r > 0" and "take (nat r) (faults yt) = replicate (nat r) SSLFault"
  shows "retry_batch yt b st r = (Inl SSLError, (advance (VideosList b) ^^ nat r) yt)"
  using assms
proof (induction "nat r" arbitrary: yt r)
  case 0
  then show ?case by simp
next
  case (Suc n)
  then have n: "n = nat (r - 1)" and r: "nat r = Suc n" by simp_all
  from Suc.prems(2) have nf: "next_fault yt = SSLFault"
    and tl: "take n (faults (advance (VideosList b) yt)) = replicate n SSLFault"
    unfolding r take_Suc_replicate next_fault_SSL_iff by simp_all
  note u = retry_batch_step [OF Suc.prems(1) try_batch_SSL [OF nf]]
  show ?case
  proof (cases "r - 1 = 0")
    case True
    then have "n = 0" using n by simp
    with u True r show ?thesis by simp
  next
    case False
    then have pos: "r - 1 > 0" using Suc.prems(1) by simp
    have "retry_batch (advance (VideosList b) yt) b st (r - 1)
        = (Inl SSLError, (advance (VideosList b) ^^ nat (r - 1)) (advance (VideosList b) yt))"
      using tl by (intro Suc.hyps(1) [OF n pos]) (simp add: n)
    with u False show ?thesis unfolding r n [symmetric] by (simp add: funpow_swap1)
  qed
qed

lemma retry_batch_recover:
  assumes "int k < r" and "take k (faults yt) = replicate k SSLFault"
    and "next_fault ((advance (VideosList b) ^^ k) yt) \<noteq> SSLFault"
  shows "retry_batch yt b st r =
           (case try_batch ((advance (VideosList b) ^^ k) yt) b st of
              (a, st', yt') \<Rightarrow> (Inr st', yt'))"
  using assms
proof (induction k arbitrary: yt r)
  case 0
  then have pos: "r > 0" by simp
  obtain a st1 yt1 where t: "try_batch yt b st = (a, st1, yt1)" by (cases "try_batch yt b st")
  have "a \<noteq> RaisedSSL" using try_batch_RaisedSSL [of yt b st] t "0.prems"(3) by simp
  with retry_batch_step [OF pos t] t show ?case by simp
next
  case (Suc k)
  then have pos: "r > 0" and nz: "r - 1 \<noteq> 0" and k: "int k < r - 1" by simp_all
  from Suc.prems(2) have nf: "next_fault yt = SSLFault"
    and tl: "take k (faults (advance (VideosList b) yt)) = replicate k SSLFault"
    unfolding take_Suc_replicate next_fault_SSL_iff by simp_all
  have nx: "next_fault ((advance (VideosList b) ^^ k) (advance (VideosList b) yt)) \<noteq> SSLFault"
    using Suc.prems(3) by (simp add: funpow_swap1)
  note u = retry_batch_step [OF pos try_batch_SSL [OF nf]]
  from Suc.IH [OF k tl nx] u nz show ?case by (simp add: funpow_swap1)
qed

lemma stats_loop_done: "\<not> i < length ids \<Longrightarrow> stats_loop yt ids i st = (Inr st, yt)"
  by (simp add: stats_loop.simps)

lemma stats_loop_step:
  assumes "i < length ids" and "try_batch yt (take 50 (drop i ids)) st = (a, st1, yt1)"
  shows "stats_loop yt ids i st =
     (if a = RaisedSSL
      then (case retry_batch yt1 (take 50 (drop i ids)) st1 3 of
              (Inl e, yt2) \<Rightarrow> (Inl e, yt2)
            | (Inr st2, yt2) \<Rightarrow> stats_loop yt2 ids (i + 50) st2)
      else stats_loop yt1 ids (i + 50) st1)"
  using assms by (cases a) (simp_all add: stats_loop.simps)

lemma stats_loop_prefix:
  "stats_loop yt ids i st = (Inr st', yt') \<Longrightarrow> prefix st st'"
proof (induction "length ids - i" arbitrary: yt i st rule: less_induct)
  case less
  show ?case
  proof (cases "i < length ids")
    case False
    with less.prems show ?thesis by (simp add: stats_loop_done)
  next
    case True
    then have m: "length ids - (i + 50) < length ids - i" by simp
    obtain a st1 yt1 where t: "try_batch yt (take 50 (drop i ids)) st = (a, st1, yt1)"
      by (cases "try_batch yt (take 50 (drop i ids)) st")
    then have p: "prefix st st1" by (rule try_batch_prefix)
    note u = stats_loop_step [OF True t]
    show ?thesis
    proof (cases "a = RaisedSSL")
      case False
      with u less.prems have "stats_loop yt1 ids (i + 50) st1 = (Inr st', yt')" by simp
      then have "prefix st1 st'" by (rule less.hyps [OF m])
      with p show ?thesis by (rule prefix_order.trans)
    next
      case ssl: True
      obtain res yt2 where rb: "retry_batch yt1 (take 50 (drop i ids)) st1 3 = (res, yt2)"
        by (cases "retry_batch yt1 (take 50 (drop i ids)) st1 3")
      show ?thesis
      proof (cases res)
        case (Inl e)
        with u ssl rb less.prems show ?thesis by simp
      next
        case (Inr st2)
        with rb have "prefix st1 st2" by (intro retry_batch_prefix) simp
        moreover from u ssl rb Inr less.prems have "stats_loop yt2 ids (i + 50) st2 = (Inr st', yt')"
          by simp
        then have "prefix st2 st'" by (rule less.hyps [OF m])
        ultimately show ?thesis using p by (meson prefix_order.trans)
      qed
    qed
  qed
qed

lemma drop_faults_decomp:
  assumes "faults y' = drop k (faults y)" and "faults y' = pre @ R @ post"
  shows "\<exists>pre post. faults y = pre @ R @ post"
proof -
  have "faults y = take k (faults y) @ drop k (faults y)" by simp
  also have "\<dots> = (take k (faults y) @ pre) @ R @ post" using assms by simp
  finally show ?thesis by blast
qed

lemma stats_loop_raises:
  "stats_loop yt ids i st = (Inl e, yt') \<Longrightarrow>
     e = SSLError \<and> (\<exists>pre post. faults yt = pre @ replicate 4 SSLFault @ post)"
proof (induction "length ids - i" arbitrary: yt i st rule: less_induct)
  case less
  show ?case
  proof (cases "i < length ids")
    case False
    with less.prems show ?thesis by (simp add: stats_loop_done)
  next
    case True
    then have m: "length ids - (i + 50) < length ids - i" by simp
    let ?b = "take 50 (drop i ids)"
    obtain a st1 yt1 where t: "try_batch yt ?b st = (a, st1, yt1)"
      by (cases "try_batch yt ?b st")
    have y1: "yt1 = advance (VideosList ?b) yt" using try_batch_state [of yt ?b st] t by simp
    then have f1: "faults yt1 = drop 1 (faults yt)" by (simp add: drop_Suc)
    note u = stats_loop_step [OF True t]
    show ?thesis
    proof (cases "a = RaisedSSL")
      case False
      with u less.prems have "stats_loop yt1 ids (i + 50) st1 = (Inl e, yt')" by simp
      then have "e = SSLError \<and> (\<exists>pre post. faults yt1 = pre @ replicate 4 SSLFault @ post)"
        by (rule less.hyps [OF m])
      then show ?thesis using drop_faults_decomp [OF f1] by blast
    next
      case ssl: True
      then have "next_fault yt = SSLFault" using try_batch_RaisedSSL [of yt ?b st] t by simp
      then obtain fs where fs: "faults yt = SSLFault # fs"
        by (auto simp: next_fault_def split: list.splits)
      obtain res yt2 where rb: "retry_batch yt1 ?b st1 3 = (res, yt2)"
        by (cases "retry_batch yt1 ?b st1 3")
      show ?thesis
      proof (cases res)
        case (Inl e')
        with rb have "e' = SSLError \<and> (\<exists>post. faults yt1 = replicate (nat 3) SSLFault @ post)"
          by (intro retry_batch_raises) simp
        then obtain post where e': "e' = SSLError" and "faults yt1 = replicate 3 SSLFault @ post"
          by auto
        then have "faults yt = [] @ replicate 4 SSLFault @ post"
          using fs y1 by (simp add: numeral_eq_Suc)
        moreover from u ssl rb Inl less.prems have "e = e'" by simp
        ultimately show ?thesis using e' by blast
      next
        case (Inr st2)
        from retry_batch_faults [OF rb] obtain k where "faults yt2 = drop k (faults yt1)" ..
        then have f2: "faults yt2 = drop (k + 1) (faults yt)" using f1 by simp
        from u ssl rb Inr less.prems have "stats_loop yt2 ids (i + 50) st2 = (Inl e, yt')"
          by simp
        then have "e = SSLError \<and> (\<exists>pre post. faults yt2 = pre @ replicate 4 SSLFault @ post)"
          by (rule less.hyps [OF m])
        then show ?thesis using drop_faults_decomp [OF f2] by blast
      qed
    qed
  qed
qed

lemma batches_step:
  assumes "i < (L::nat)"
  shows "(L - i + 49) div 50 = Suc ((L - (i + 50) + 49) div 50)"
proof (cases "i + 50 \<le> L")
  case True
  then have "L - i + 49 = (L - (i + 50) + 49) + 50" by arith
  then have "(L - i + 49) div 50 = ((L - (i + 50) + 49) + 50) div 50" by (rule arg_cong)
  also have "\<dots> = Suc ((L - (i + 50) + 49) div 50)" by (subst div_add_self2) simp_all
  finally show ?thesis .
next
  case False
  then have z: "(L - (i + 50) + 49) div 50 = 0" by simp
  from assms have "L - i + 49 = (L - i - 1) + 50" by arith
  then have "(L - i + 49) div 50 = ((L - i - 1) + 50) div 50" by (rule arg_cong)
  also have "\<dots> = Suc ((L - i - 1) div 50)" by (subst div_add_self2) simp_all
  also have "(L - i - 1) div 50 = 0" using False by simp
  finally show ?thesis unfolding z .
qed

lemma upt_0_Suc: "[0..<Suc N] = 0 # map Suc [0..<N]"
proof -
  have "[0..<Suc N] = 0 # [Suc 0..<Suc N]" by (rule upt_conv_Cons) simp
  also have "[Suc 0..<Suc N] = map Suc [0..<N]" by (rule map_Suc_upt [symmetric])
  finally show ?thesis .
qed

lemma batches_unfold:
  assumes "i < length ids"
  shows "map (\<lambda>k. f (take 50 (drop (i + 50 * k) ids))) [0..<(length ids - i + 49) div 50] =
           f (take 50 (drop i ids)) #
           map (\<lambda>k. f (take 50 (drop (i + 50 + 50 * k) ids))) [0..<(length ids - (i + 50) + 49) div 50]"
  unfolding batches_step [OF assms] upt_0_Suc
  by (simp only: list.map map_map o_def) (simp add: add.assoc)

lemma batches_concat:
  "concat (map (\<lambda>k. take 50 (drop (i + 50 * k) ids)) [0..<(length ids - i + 49) div 50]) = drop i ids"
proof (induction "length ids - i" arbitrary: i rule: less_induct)
  case less
  show ?case
  proof (cases "i < length ids")
    case False
    then have "(length ids - i + 49) div 50 = 0" by simp
    with False show ?thesis by simp
  next
    case True
    then have m: "length ids - (i + 50) < length ids - i" by simp
    have "concat (map (\<lambda>k. take 50 (drop (i + 50 * k) ids)) [0..<(length ids - i + 49) div 50])
        = take 50 (drop i ids) @ drop (i + 50) ids"
      unfolding batches_unfold [OF True, of "\<lambda>x. x"] concat.simps less.hyps [OF m] ..
    also have "\<dots> = drop i ids"
      by (metis add.commute append_take_drop_id drop_drop)
    finally show ?thesis .
  qed
qed

lemma stats_loop_other:
  assumes "i < length ids" and "next_fault yt \<noteq> SSLFault"
  shows "stats_loop yt ids i st =
           (case try_batch yt (take 50 (drop i ids)) st of
              (a, st', yt') \<Rightarrow> stats_loop yt' ids (i + 50) st')"
proof -
  obtain a st1 yt1 where t: "try_batch yt (take 50 (drop i ids)) st = (a, st1, yt1)"
    by (cases "try_batch yt (take 50 (drop i ids)) st")
  have "a \<noteq> RaisedSSL" using try_batch_RaisedSSL [of yt "take 50 (drop i ids)" st] t assms(2) by simp
  with stats_loop_step [OF assms(1) t] t show ?thesis by simp
qed

lemma funpow_4: "(f ^^ 4) x = (f ^^ 3) (f x)"
proof -
  have "(f ^^ Suc 3) x = (f ^^ 3) (f x)" by (simp only: funpow_Suc_right o_apply)
  then show ?thesis by simp
qed

lemma stats_loop_exhaust:
  assumes "i < length ids" and "take 4 (faults yt) = replicate 4 SSLFault"
  shows "stats_loop yt ids i st =
           (Inl SSLError, (advance (VideosList (take 50 (drop i ids))) ^^ 4) yt)"
proof -
  let ?c = "VideosList (take 50 (drop i ids))"
  have e: "(4::nat) = Suc 3" by simp
  from assms(2) have nf: "next_fault yt = SSLFault"
    and tl: "take (nat 3) (faults (advance ?c yt)) = replicate (nat 3) SSLFault"
    unfolding e take_Suc_replicate next_fault_SSL_iff by simp_all
  have "retry_batch (advance ?c yt) (take 50 (drop i ids)) st 3
      = (Inl SSLError, (advance ?c ^^ nat 3) (advance ?c yt))"
    using tl by (intro retry_batch_exhaust) simp_all
  with stats_loop_step [OF assms(1) try_batch_SSL [OF nf]]
  show ?thesis by (simp add: funpow_4)
qed

lemma stats_loop_recover:
  assumes "i < length ids" and "j < 3"
    and "take (Suc j) (faults yt) = replicate (Suc j) SSLFault"
    and "next_fault ((advance (VideosList (take 50 (drop i ids))) ^^ Suc j) yt) \<noteq> SSLFault"
  shows "stats_loop yt ids i st =
           (case try_batch ((advance (VideosList (take 50 (drop i ids))) ^^ Suc j) yt)
                   (take 50 (drop i ids)) st of
              (a, st', yt') \<Rightarrow> stats_loop yt' ids (i + 50) st')"
proof -
  let ?b = "take 50 (drop i ids)"
  let ?c = "VideosList ?b"
  from assms(3) have nf: "next_fault yt = SSLFault"
    and tl: "take j (faults (advance ?c yt)) = replicate j SSLFault"
    unfolding take_Suc_replicate next_fault_SSL_iff by simp_all
  have nx: "next_fault ((advance ?c ^^ j) (advance ?c yt)) \<noteq> SSLFault"
    using assms(4) by (simp add: funpow_swap1)
  have "int j < 3" using assms(2) by simp
  from retry_batch_recover [OF this tl nx]
  have "retry_batch (advance ?c yt) ?b st 3 =
      (case try_batch ((advance ?c ^^ Suc j) yt) ?b st of (a, st', yt') \<Rightarrow> (Inr st', yt'))"
    by (simp add: funpow_swap1)
  with stats_loop_step [OF assms(1) try_batch_SSL [OF nf]]
  show ?thesis by (simp split: prod.splits)
qed

lemma stats_loop_batches:
  assumes "faults yt = []"
  shows "(\<exists>st'. fst (stats_loop yt ids i st) = Inr st') \<and>
         calls (snd (stats_loop yt ids i st)) = calls yt @
           map (\<lambda>k. VideosList (take 50 (drop (i + 50 * k) ids)))
             [0..<(length ids - i + 49) div 50]"
  using assms
proof (induction "length ids - i" arbitrary: yt i st rule: less_induct)
  case less
  show ?case
  proof (cases "i < length ids")
    case False
    then have "(length ids - i + 49) div 50 = 0" by simp
    with False show ?thesis by (simp add: stats_loop_done)
  next
    case True
    then have m: "length ids - (i + 50) < length ids - i" by simp
    let ?b = "take 50 (drop i ids)"
    have nf: "next_fault yt \<noteq> SSLFault" using less.prems by (simp add: next_fault_def)
    obtain a st1 yt1 where t: "try_batch yt ?b st = (a, st1, yt1)"
      by (cases "try_batch yt ?b st")
    have y1: "yt1 = advance (VideosList ?b) yt" using try_batch_state [of yt ?b st] t by simp
    then have f1: "faults yt1 = []" using less.prems by simp
    have u: "stats_loop yt ids i st = stats_loop yt1 ids (i + 50) st1"
      using stats_loop_other [OF True nf] t by simp
    from less.hyps [OF m f1, of st1] show ?thesis
      unfolding u batches_unfold [OF True] using y1 by simp
  qed
qed

lemma parse_sample_item: "parse_item (sample_item v) = Inr (sample_stat v)"
  by (simp add: parse_item_def sample_item_def sample_stat_def)

lemma append_stats_sample: "append_stats st (map sample_item vs) = (st @ map sample_stat vs, None)"
  by (induction vs arbitrary: st) (simp_all add: parse_sample_item)

lemma stats_loop_exhaust_later:
  assumes "i + 50 * k < length ids"
    and "take (k + 4) (faults yt) = replicate k NoFault @ replicate 4 SSLFault"
  shows "fst (stats_loop yt ids i st) = Inl SSLError \<and>
         calls (snd (stats_loop yt ids i st)) = calls yt @
           map (\<lambda>j. VideosList (take 50 (drop (i + 50 * j) ids))) [0..<k] @
           replicate 4 (VideosList (take 50 (drop (i + 50 * k) ids)))"
  using assms
proof (induction k arbitrary: yt i st)
  case 0
  then have "i < length ids" "take 4 (faults yt) = replicate 4 SSLFault" by simp_all
  then show ?case by (simp add: stats_loop_exhaust)
next
  case (Suc k)
  let ?b = "take 50 (drop i ids)"
  have lt: "i < length ids" and lt': "i + 50 + 50 * k < length ids" using Suc.prems(1) by simp_all
  have p2: "take (Suc (k + 4)) (faults yt) = NoFault # replicate k NoFault @ replicate 4 SSLFault"
    using Suc.prems(2) by (simp only: add_Suc replicate_Suc append_Cons)
  have "\<exists>fs. faults yt = NoFault # fs"
  proof (cases "faults yt")
    case Nil
    with p2 show ?thesis by simp
  next
    case (Cons a list)
    with p2 have "a # take (k + 4) list = NoFault # replicate k NoFault @ replicate 4 SSLFault"
      by (simp only: take_Suc_Cons)
    with Cons show ?thesis by simp
  qed
  then obtain fs where fs: "faults yt = NoFault # fs" ..
  then have nf: "next_fault yt \<noteq> SSLFault" by (simp add: next_fault_def)
  obtain a st1 yt1 where t: "try_batch yt ?b st = (a, st1, yt1)"
    by (cases "try_batch yt ?b st")
  have y1: "yt1 = advance (VideosList ?b) yt" using try_batch_state [of yt ?b st] t by simp
  have f1: "take (k + 4) (faults yt1) = replicate k NoFault @ replicate 4 SSLFault"
    using p2 fs y1 by (simp only: take_Suc_Cons list.inject advance_simps list.sel)
  have u: "stats_loop yt ids i st = stats_loop yt1 ids (i + 50) st1"
    using stats_loop_other [OF lt nf] t by simp
  have "map (\<lambda>j. VideosList (take 50 (drop (i + 50 * j) ids))) [0..<Suc k]
      = VideosList ?b # map (\<lambda>j. VideosList (take 50 (drop (i + 50 + 50 * j) ids))) [0..<k]"
    unfolding upt_0_Suc by (simp only: list.map map_map o_def) (simp add: add.assoc)
  with Suc.IH [OF lt' f1, of st1] show ?case
    unfolding u using y1 by (simp add: add.assoc)
qed

section \<open>Lemmas on strings and on the rolling mean\<close>








section \<open>Collecting the whole playlist\<close>




section \<open>Collecting the first \<open>n\<close> videos\<close>

text \<open>
  Claim C5. For a playlist \<open>pl\<close> of \<open>M\<close> videos served page by page, a positive \<open>n\<close> and a
  run that meets no fault, \<open>get_last_n_video_ids\<close> returns the first \<open>n\<close> ids of \<open>pl\<close>
  in the order of the service: \<open>n\<close> ids when \<open>n \<le> M\<close>, all \<open>M\<close> otherwise. Request
  number \<open>k\<close> is issued when \<open>50 * k\<close> ids have been collected and asks for
  \<open>min (n - 50 * k) 50\<close> items, that is \<open>min(remaining, 50)\<close>.
\<close>

theorem get_last_n_video_ids_first_n:
  assumes "playlist_items yt pid = playlist_page pl" and "faults yt = []" and "0 < n"
  shows "(\<exists>yt'. get_last_n_video_ids yt pid n = Some (Inr (take (nat n) pl), yt') \<and>
            calls yt' = calls yt @
              map (\<lambda>k. PlaylistItems pid (min (n - int (50 * k)) 50)
                         (if k = 0 then None else page_token (50 * k)))
                [0..<Suc ((min (nat n) (length pl) - 1) div 50)]) \<and>
         length (take (nat n) pl) = (if n \<le> int (length pl) then nat n else length pl) \<and>
         (\<forall>k < Suc ((min (nat n) (length pl) - 1) div 50).
            length (take (50 * k) (take (nat n) pl)) = 50 * k)"
proof (intro conjI allI impI)
  have "OtherFault \<notin> set (faults yt)" "ssl_count (faults yt) < 3" "[] = take (token_offset None) pl"
    "token_offset None \<le> length pl" "int (token_offset None) < n"
    using assms(2,3) by (simp_all add: ssl_count_def token_offset_def)
  from last_n_loop_service [OF assms(1) this]
  show "\<exists>yt'. get_last_n_video_ids yt pid n = Some (Inr (take (nat n) pl), yt') \<and>
            calls yt' = calls yt @
              map (\<lambda>k. PlaylistItems pid (min (n - int (50 * k)) 50)
                         (if k = 0 then None else page_token (50 * k)))
                [0..<Suc ((min (nat n) (length pl) - 1) div 50)]"
    unfolding get_last_n_video_ids_def assms(2) n_requests_closed [symmetric]
    by (simp add: token_offset_def retry_log_Nil)
next
  show "length (take (nat n) pl) = (if n \<le> int (length pl) then nat n else length pl)"
    using assms(3) by auto
next
  fix k assume "k < Suc ((min (nat n) (length pl) - 1) div 50)"
  then have "k \<le> (min (nat n) (length pl) - 1) div 50" by simp
  then have "k * 50 \<le> min (nat n) (length pl) - 1" by (simp add: less_eq_div_iff_mult_less_eq)
  then have "50 * k \<le> min (nat n) (length pl)" by linarith
  then show "length (take (50 * k) (take (nat n) pl)) = 50 * k" by simp
qed

text \<open>
  The theorem at a playlist of 51 videos and \<open>n = 60\<close>: the second request asks for the
  10 items that remain.
\<close>

theorem get_last_n_video_ids_first_n_witness:
  "playlist_items (playlist_service (replicate 51 ''v'') []) ''UU'' = playlist_page (replicate 51 ''v'') \<and>
   faults (playlist_service (replicate 51 ''v'') []) = [] \<and> (0::int) < 60 \<and>
   map_option fst (get_last_n_video_ids (playlist_service (replicate 51 ''v'') []) ''UU'' 60)
     = Some (Inr (replicate 51 ''v'')) \<and>
   map_option (calls \<circ> snd) (get_last_n_video_ids (playlist_service (replicate 51 ''v'') []) ''UU'' 60)
     = Some [PlaylistItems ''UU'' 50 None, PlaylistItems ''UU'' 10 (page_token 50)] \<and>
   length (take (50 * 1) (take (nat 60) (replicate 51 ''v''))) = 50 * 1"
proof -
  let ?yt = "playlist_service (replicate 51 ''v'') []"
  have h1: "playlist_items ?yt ''UU'' = playlist_page (replicate 51 ''v'')"
    by (simp add: playlist_service_def)
  have h2: "faults ?yt = []" by (simp add: playlist_service_def)
  have h3: "(0::int) < 60" by simp
  have c: "calls ?yt = []" by (simp add: playlist_service_def)
  have u: "[0..<Suc ((min (nat 60) (length (replicate 51 ''v'')) - 1) div 50)] = [0, 1]"
    by (simp add: upt_rec)
  note t = get_last_n_video_ids_first_n [OF h1 h2 h3, unfolded u c]
  from t obtain yt' where r: "get_last_n_video_ids ?yt ''UU'' 60 = Some (Inr (take (nat 60) (replicate 51 ''v'')), yt')"
    "calls yt' = [] @ map (\<lambda>k. PlaylistItems ''UU'' (min (60 - int (50 * k)) 50) (if k = 0 then None else page_token (50 * k))) [0, 1]"
    by blast
  from t have "\<forall>k<Suc ((min (nat 60) (length (replicate 51 ''v'')) - 1) div 50).
      length (take (50 * k) (take (nat 60) (replicate 51 ''v''))) = 50 * k"
    by blast
  then have k1: "length (take (50 * 1) (take (nat 60) (replicate 51 ''v''))) = 50 * 1"
    by (rule allE [where x = 1]) simp
  show ?thesis using h1 h2 r k1 by simp
qed


section \<open>SSL faults during pagination\<close>

text \<open>
  Three SSL faults on the first page: both collectors raise after three requests, that
  is after two retries of the page, although the service would have answered the third
  retry. The budget is not per page either: after two faults on the first page, the first
  fault on the second page is raised.
\<close>

theorem pagination_retry_counterexample:
  "map_option fst (get_all_video_ids (playlist_service [''v''] [SSLFault, SSLFault, SSLFault]) ''UU'')
     = Some (Inl SSLError) \<and>
   map_option (calls \<circ> snd)
       (get_all_video_ids (playlist_service [''v''] [SSLFault, SSLFault, SSLFault]) ''UU'')
     = Some [PlaylistItems ''UU'' 50 None, PlaylistItems ''UU'' 50 None, PlaylistItems ''UU'' 50 None] \<and>
   map_option fst (get_last_n_video_ids (playlist_service [''v''] [SSLFault, SSLFault, SSLFault]) ''UU'' 50)
     = Some (Inl SSLError) \<and>
   map_option (calls \<circ> snd)
       (get_last_n_video_ids (playlist_service [''v''] [SSLFault, SSLFault, SSLFault]) ''UU'' 50)
     = Some [PlaylistItems ''UU'' 50 None, PlaylistItems ''UU'' 50 None, PlaylistItems ''UU'' 50 None] \<and>
   map_option fst (get_all_video_ids
       (playlist_service (replicate 51 ''v'') [SSLFault, SSLFault, NoFault, SSLFault]) ''UU'')
     = Some (Inl SSLError) \<and>
   map_option (calls \<circ> snd) (get_all_video_ids
       (playlist_service (replicate 51 ''v'') [SSLFault, SSLFault, NoFault, SSLFault]) ''UU'')
     = Some [PlaylistItems ''UU'' 50 None, PlaylistItems ''UU'' 50 None, PlaylistItems ''UU'' 50 None,
             PlaylistItems ''UU'' 50 (page_token 50)]"
  by (simp add: get_all_video_ids_def get_last_n_video_ids_def playlist_service_def
      all_loop_NoFault all_loop_SSLFault last_n_loop_NoFault last_n_loop_SSLFault
      next_fault_def advance_def playlist_page_def token_offset_def falsy_def page_token_def
      Let_def del: map_replicate)

text \<open>
  Claim C1, as amended. Both collectors keep one counter for the whole collection; it
  starts at 3 and every SSL fault takes 1 from it. On a playlist served page by page, a
  run whose script holds no other fault and fewer than three SSL faults returns the ids
  of the playlist (the first \<open>n\<close> of them), each page's ids exactly once, and the
  requests it issues are those of the run without faults with every request that met a
  fault issued once more, unchanged (same continuation token, same page size). The third
  SSL fault of a collection, on whichever page it falls, is raised as the transport
  error: if the script is \<open>pre @ SSLFault # post\<close> with two SSL faults in \<open>pre\<close> and
  fewer successful calls in \<open>pre\<close> than the playlist has pages, the collection fails with
  \<open>SSLError\<close> at that call.
\<close>

theorem pagination_retry_budget:
  assumes "playlist_items yt pid = playlist_page pl" and "0 < n"
  shows "(OtherFault \<notin> set (faults yt) \<and> ssl_count (faults yt) < 3 \<longrightarrow>
            (\<exists>yt'. get_all_video_ids yt pid = Some (Inr pl, yt') \<and>
                calls yt' = calls yt @ retry_log (faults yt) (all_requests_from pid (length pl) 0 None)) \<and>
            (\<exists>yt'. get_last_n_video_ids yt pid n = Some (Inr (take (nat n) pl), yt') \<and>
                calls yt' = calls yt @ retry_log (faults yt) (n_requests_from pid n (length pl) 0 None))) \<and>
         (\<forall>pre post. faults yt = pre @ SSLFault # post \<and> OtherFault \<notin> set pre \<and> ssl_count pre = 2 \<longrightarrow>
            (ok_count pre < Suc ((length pl - 1) div 50) \<longrightarrow>
               (\<exists>yt'. get_all_video_ids yt pid = Some (Inl SSLError, yt') \<and> faults yt' = post \<and>
                   length (calls yt') = length (calls yt) + Suc (length pre))) \<and>
            (ok_count pre < Suc ((min (nat n) (length pl) - 1) div 50) \<longrightarrow>
               (\<exists>yt'. get_last_n_video_ids yt pid n = Some (Inl SSLError, yt') \<and> faults yt' = post \<and>
                   length (calls yt') = length (calls yt) + Suc (length pre))))"
proof (intro conjI allI impI; (elim conjE)?)
  have z: "[] = take (token_offset None) pl" "token_offset None \<le> length pl"
      "int (token_offset None) < n" "token_offset None = 0"
    using assms(2) by (simp_all add: token_offset_def)
  {
    assume a: "OtherFault \<notin> set (faults yt)" "ssl_count (faults yt) < 3"
    from all_loop_service [OF assms(1) a z(1)]
    show "\<exists>yt'. get_all_video_ids yt pid = Some (Inr pl, yt') \<and>
                calls yt' = calls yt @ retry_log (faults yt) (all_requests_from pid (length pl) 0 None)"
      unfolding get_all_video_ids_def z(4) .
    from last_n_loop_service [OF assms(1) a z(1,2,3)]
    show "\<exists>yt'. get_last_n_video_ids yt pid n = Some (Inr (take (nat n) pl), yt') \<and>
                calls yt' = calls yt @ retry_log (faults yt) (n_requests_from pid n (length pl) 0 None)"
      unfolding get_last_n_video_ids_def z(4) .
  }
  fix pre post
  assume b: "faults yt = pre @ SSLFault # post" "OtherFault \<notin> set pre" "ssl_count pre = 2"
  have r: "ssl_count pre = 3 - 1" using b(3) by simp
  {
    assume "ok_count pre < Suc ((length pl - 1) div 50)"
    then have k: "ok_count pre < Suc ((length pl - token_offset None - 1) div 50)"
      by (simp add: z(4))
    from all_loop_third_ssl [OF assms(1) b(1,2) r k z(1)]
    show "\<exists>yt'. get_all_video_ids yt pid = Some (Inl SSLError, yt') \<and> faults yt' = post \<and>
                   length (calls yt') = length (calls yt) + Suc (length pre)"
      unfolding get_all_video_ids_def .
  }
  {
    assume "ok_count pre < Suc ((min (nat n) (length pl) - 1) div 50)"
    then have k: "ok_count pre < Suc ((min (nat n) (length pl) - token_offset None - 1) div 50)"
      by (simp add: z(4))
    from last_n_loop_third_ssl [OF assms(1) b(1,2) r k z(1,2,3)]
    show "\<exists>yt'. get_last_n_video_ids yt pid n = Some (Inl SSLError, yt') \<and> faults yt' = post \<and>
                   length (calls yt') = length (calls yt) + Suc (length pre)"
      unfolding get_last_n_video_ids_def .
  }
qed


text \<open>
  The theorem at a playlist of 51 videos: with one fault on each page both collectors
  return the 51 ids and each page is requested twice; with two faults on the first page
  and one on the second they raise.
\<close>

theorem pagination_retry_budget_witness:
  "playlist_items (playlist_service (replicate 51 ''v'') [SSLFault, NoFault, SSLFault]) ''UU''
     = playlist_page (replicate 51 ''v'') \<and>
   (0::int) < 60 \<and>
   OtherFault \<notin> set (faults (playlist_service (replicate 51 ''v'') [SSLFault, NoFault, SSLFault])) \<and>
   ssl_count (faults (playlist_service (replicate 51 ''v'') [SSLFault, NoFault, SSLFault])) < 3 \<and>
   map_option fst (get_all_video_ids
       (playlist_service (replicate 51 ''v'') [SSLFault, NoFault, SSLFault]) ''UU'')
     = Some (Inr (replicate 51 ''v'')) \<and>
   map_option (calls \<circ> snd) (get_all_video_ids
       (playlist_service (replicate 51 ''v'') [SSLFault, NoFault, SSLFault]) ''UU'')
     = Some [PlaylistItems ''UU'' 50 None, PlaylistItems ''UU'' 50 None,
             PlaylistItems ''UU'' 50 (page_token 50), PlaylistItems ''UU'' 50 (page_token 50)] \<and>
   map_option fst (get_last_n_video_ids
       (playlist_service (replicate 51 ''v'') [SSLFault, NoFault, SSLFault]) ''UU'' 60)
     = Some (Inr (replicate 51 ''v'')) \<and>
   map_option (calls \<circ> snd) (get_last_n_video_ids
       (playlist_service (replicate 51 ''v'') [SSLFault, NoFault, SSLFault]) ''UU'' 60)
     = Some [PlaylistItems ''UU'' 50 None, PlaylistItems ''UU'' 50 None,
             PlaylistItems ''UU'' 10 (page_token 50), PlaylistItems ''UU'' 10 (page_token 50)] \<and>
   faults (playlist_service (replicate 51 ''v'') [SSLFault, SSLFault, NoFault, SSLFault])
     = [SSLFault, SSLFault, NoFault] @ SSLFault # [] \<and>
   OtherFault \<notin> set [SSLFault, SSLFault, NoFault] \<and>
   ssl_count [SSLFault, SSLFault, NoFault] = 2 \<and>
   ok_count [SSLFault, SSLFault, NoFault] < Suc ((length (replicate 51 ''v'') - 1) div 50) \<and>
   map_option fst (get_all_video_ids
       (playlist_service (replicate 51 ''v'') [SSLFault, SSLFault, NoFault, SSLFault]) ''UU'')
     = Some (Inl SSLError) \<and>
   map_option fst (get_last_n_video_ids
       (playlist_service (replicate 51 ''v'') [SSLFault, SSLFault, NoFault, SSLFault]) ''UU'' 60)
     = Some (Inl SSLError)"
proof -
  let ?pl = "replicate 51 ''v''"
  let ?yt = "playlist_service ?pl [SSLFault, NoFault, SSLFault]"
  let ?yt2 = "playlist_service ?pl [SSLFault, SSLFault, NoFault, SSLFault]"
  have h1: "playlist_items ?yt ''UU'' = playlist_page ?pl"
    and h1': "playlist_items ?yt2 ''UU'' = playlist_page ?pl"
    by (simp_all add: playlist_service_def)
  have h2: "(0::int) < 60" by simp
  have h3: "OtherFault \<notin> set (faults ?yt) \<and> ssl_count (faults ?yt) < 3"
    by (simp add: playlist_service_def ssl_count_def)
  have f: "faults ?yt = [SSLFault, NoFault, SSLFault]" and c: "calls ?yt = []"
    by (simp_all add: playlist_service_def)
  have la: "retry_log [SSLFault, NoFault, SSLFault] (all_requests_from ''UU'' (length ?pl) 0 None)
      = [PlaylistItems ''UU'' 50 None, PlaylistItems ''UU'' 50 None,
             PlaylistItems ''UU'' 50 (page_token 50), PlaylistItems ''UU'' 50 (page_token 50)]"
    by (simp add: all_requests_from_def upt_rec)
  have ln: "retry_log [SSLFault, NoFault, SSLFault] (n_requests_from ''UU'' 60 (length ?pl) 0 None)
      = [PlaylistItems ''UU'' 50 None, PlaylistItems ''UU'' 50 None,
             PlaylistItems ''UU'' 10 (page_token 50), PlaylistItems ''UU'' 10 (page_token 50)]"
    by (simp add: n_requests_from_def upt_rec)
  note t = pagination_retry_budget [OF h1 h2]
  from t h3 obtain ya yn where
    a: "get_all_video_ids ?yt ''UU'' = Some (Inr ?pl, ya)"
       "calls ya = calls ?yt @ retry_log (faults ?yt) (all_requests_from ''UU'' (length ?pl) 0 None)"
    and n: "get_last_n_video_ids ?yt ''UU'' 60 = Some (Inr (take (nat 60) ?pl), yn)"
       "calls yn = calls ?yt @ retry_log (faults ?yt) (n_requests_from ''UU'' 60 (length ?pl) 0 None)"
    by blast
  have g1: "faults ?yt2 = [SSLFault, SSLFault, NoFault] @ SSLFault # []"
    by (simp add: playlist_service_def)
  have g2: "OtherFault \<notin> set [SSLFault, SSLFault, NoFault]" by simp
  have g3: "ssl_count [SSLFault, SSLFault, NoFault] = 2" by (simp add: ssl_count_def)
  have g4: "ok_count [SSLFault, SSLFault, NoFault] < Suc ((length ?pl - 1) div 50)"
    by (simp add: ok_count_def)
  have g5: "ok_count [SSLFault, SSLFault, NoFault] < Suc ((min (nat 60) (length ?pl) - 1) div 50)"
    by (simp add: ok_count_def)
  note t2 = pagination_retry_budget [OF h1' h2]
  from t2 g1 g2 g3 g4 obtain yb where
    b: "get_all_video_ids ?yt2 ''UU'' = Some (Inl SSLError, yb)"
    by blast
  from t2 g1 g2 g3 g5 obtain ym where
    m: "get_last_n_video_ids ?yt2 ''UU'' 60 = Some (Inl SSLError, ym)"
    by blast
  show ?thesis
    using h1 h2 h3 g1 g2 g3 g4 a n b m
    unfolding f c la ln by simp
qed

section \<open>A batch that fails with another error\<close>

text \<open>
  Claim C4. In \<open>get_videos_statistics\<close>, a batch whose request raises an error other
  than \<open>ssl.SSLError\<close> neither fails the aggregation nor raises: the loop goes on with the
  next batch and the list of records is the one it had before the batch, so the batch
  contributes no record. The records collected so far are never lost: whenever the loop
  returns a list, the list it started from is a prefix of it. In particular, when the
  ids form a batch of 50 followed by a batch of at most 50, the first request succeeds
  and the second raises such an error, the result is exactly the records of the first
  batch, one per item of its response.
\<close>

theorem statistics_skip_failed_batch:
  "(\<forall>i st. i < length ids \<and> next_fault yt = OtherFault \<longrightarrow>
       stats_loop yt ids i st =
         stats_loop (advance (VideosList (take 50 (drop i ids))) yt) ids (i + 50) st) \<and>
   (\<forall>i st st' yt'. stats_loop yt ids i st = (Inr st', yt') \<longrightarrow> prefix st st') \<and>
   (\<forall>b1 b2 fs items recs.
       ids = b1 @ b2 \<and> length b1 = 50 \<and> b2 \<noteq> [] \<and> length b2 \<le> 50 \<and>
       faults yt = NoFault # OtherFault # fs \<and>
       vid_items (videos yt b1) = Some items \<and> append_stats [] items = (recs, None) \<longrightarrow>
       get_videos_statistics yt ids =
         (Inr recs, advance (VideosList b2) (advance (VideosList b1) yt)) \<and>
       length recs = length items)"
proof (intro conjI allI impI; (elim conjE)?)
  fix i st
  assume "i < length ids" and o: "next_fault yt = OtherFault"
  then have "stats_loop yt ids i st =
      (case try_batch yt (take 50 (drop i ids)) st of (a, st', yt') \<Rightarrow> stats_loop yt' ids (i + 50) st')"
    by (intro stats_loop_other) simp_all
  then show "stats_loop yt ids i st =
         stats_loop (advance (VideosList (take 50 (drop i ids))) yt) ids (i + 50) st"
    by (simp add: try_batch_Other [OF o])
next
  fix i st st' yt'
  assume "stats_loop yt ids i st = (Inr st', yt')"
  then show "prefix st st'" by (rule stats_loop_prefix)
next
  fix b1 b2 fs items recs
  assume ids: "ids = b1 @ b2" and l1: "length b1 = 50" and b2: "b2 \<noteq> []" and l2: "length b2 \<le> 50"
    and f: "faults yt = NoFault # OtherFault # fs"
    and it: "vid_items (videos yt b1) = Some items" and ap: "append_stats [] items = (recs, None)"
  let ?y1 = "advance (VideosList b1) yt"
  let ?y2 = "advance (VideosList b2) ?y1"
  have i0: "0 < length ids" and i1: "0 + 50 < length ids" and i2: "\<not> 0 + 50 + 50 < length ids"
    using ids l1 b2 l2 by simp_all
  have t0: "take 50 (drop 0 ids) = b1" and t1: "take 50 (drop (0 + 50) ids) = b2"
    using ids l1 l2 by simp_all
  have n0: "next_fault yt = NoFault" and n1: "next_fault ?y1 = OtherFault"
    using f by (simp_all add: next_fault_def)
  have nf0: "next_fault yt \<noteq> SSLFault" and nf1: "next_fault ?y1 \<noteq> SSLFault"
    using n0 n1 by simp_all
  have tb0: "try_batch yt (take 50 (drop 0 ids)) [] = (Succeeded, recs, ?y1)"
    unfolding t0 using n0 it ap by (simp add: try_batch_NoFault)
  have tb1: "try_batch ?y1 (take 50 (drop (0 + 50) ids)) recs = (RaisedOther, recs, ?y2)"
    unfolding t1 using n1 by (rule try_batch_Other)
  have "stats_loop yt ids 0 [] = stats_loop ?y1 ids (0 + 50) recs"
    unfolding stats_loop_other [OF i0 nf0] tb0 by (simp only: prod.case)
  also have "\<dots> = stats_loop ?y2 ids (0 + 50 + 50) recs"
    unfolding stats_loop_other [OF i1 nf1] tb1 by (simp only: prod.case)
  also have "\<dots> = (Inr recs, ?y2)" using i2 by (rule stats_loop_done)
  finally show "get_videos_statistics yt ids = (Inr recs, ?y2)"
    by (simp add: get_videos_statistics_def)
  show "length recs = length items" using append_stats_length [OF ap] by simp
qed

text \<open>
  The theorem at 100 ids in two batches of 50, on a service that knows every video: the
  result holds the 50 records of the first batch.
\<close>

theorem statistics_skip_failed_batch_witness:
  "(0::nat) < length (replicate 50 ''a'' @ replicate 50 ''b'') \<and>
   next_fault (video_service [OtherFault]) = OtherFault \<and>
   stats_loop (video_service [OtherFault]) (replicate 50 ''a'' @ replicate 50 ''b'') 0 [] =
     stats_loop (advance (VideosList (replicate 50 ''a'')) (video_service [OtherFault]))
       (replicate 50 ''a'' @ replicate 50 ''b'') 50 [] \<and>
   length (replicate 50 ''a'') = 50 \<and> replicate 50 ''b'' \<noteq> [] \<and> length (replicate 50 ''b'') \<le> 50 \<and>
   faults (video_service [NoFault, OtherFault]) = NoFault # OtherFault # [] \<and>
   vid_items (videos (video_service [NoFault, OtherFault]) (replicate 50 ''a''))
     = Some (map sample_item (replicate 50 ''a'')) \<and>
   append_stats [] (map sample_item (replicate 50 ''a'')) = (replicate 50 (sample_stat ''a''), None) \<and>
   fst (get_videos_statistics (video_service [NoFault, OtherFault])
          (replicate 50 ''a'' @ replicate 50 ''b'')) = Inr (replicate 50 (sample_stat ''a'')) \<and>
   calls (snd (get_videos_statistics (video_service [NoFault, OtherFault])
          (replicate 50 ''a'' @ replicate 50 ''b'')))
     = [VideosList (replicate 50 ''a''), VideosList (replicate 50 ''b'')] \<and>
   prefix [] (replicate 50 (sample_stat ''a''))"
proof -
  let ?ids = "replicate 50 ''a'' @ replicate 50 ''b''"
  let ?y0 = "video_service [OtherFault]"
  let ?yt = "video_service [NoFault, OtherFault]"
  have a1: "(0::nat) < length ?ids \<and> next_fault ?y0 = OtherFault"
    by (simp add: video_service_def next_fault_def)
  have c1: "stats_loop ?y0 ?ids 0 [] =
     stats_loop (advance (VideosList (replicate 50 ''a'')) ?y0) ?ids 50 []"
    using statistics_skip_failed_batch [of ?ids ?y0, THEN conjunct1, rule_format, of 0 "[]"] a1
    by simp
  have h: "?ids = replicate 50 ''a'' @ replicate 50 ''b'' \<and> length (replicate 50 ''a'') = 50 \<and>
      replicate 50 ''b'' \<noteq> [] \<and> length (replicate 50 ''b'') \<le> 50 \<and>
      faults ?yt = NoFault # OtherFault # [] \<and>
      vid_items (videos ?yt (replicate 50 ''a'')) = Some (map sample_item (replicate 50 ''a'')) \<and>
      append_stats [] (map sample_item (replicate 50 ''a'')) = (replicate 50 (sample_stat ''a''), None)"
    by (simp add: video_service_def append_stats_sample del: map_replicate) simp
  note s = statistics_skip_failed_batch [of ?ids ?yt, THEN conjunct2, THEN conjunct2, rule_format,
      of "replicate 50 ''a''" "replicate 50 ''b''" "[]" "map sample_item (replicate 50 ''a'')"
         "replicate 50 (sample_stat ''a'')"]
  from s [OF h]
  have r: "get_videos_statistics ?yt ?ids =
      (Inr (replicate 50 (sample_stat ''a'')),
       advance (VideosList (replicate 50 ''b'')) (advance (VideosList (replicate 50 ''a'')) ?yt))"
    by (rule conjunct1)
  from statistics_skip_failed_batch [of ?ids ?yt, THEN conjunct2, THEN conjunct1, rule_format,
      of 0 "[]" "replicate 50 (sample_stat ''a'')"] r
  have p: "prefix [] (replicate 50 (sample_stat ''a''))"
    unfolding get_videos_statistics_def by simp
  have c: "calls ?yt = []" by (simp add: video_service_def)
  show ?thesis using a1 c1 h p unfolding r by (simp add: c)
qed

section \<open>Batches and retries of \<open>get_videos_statistics\<close>\<close>

text \<open>
  Claim C7. The ids are requested in consecutive batches of at most 50, in the order of the
  input: a run without faults issues the requests for
  \<open>ids[0:50]\<close>, \<open>ids[50:100]\<close>, ..., and these batches concatenated are the input. When the
  request of a batch raises \<open>ssl.SSLError\<close>, the same batch is requested again, up to 3
  times: if the first attempt and \<open>j < 3\<close> retries raise it and the next attempt does
  not, the loop goes on with the next batch and the records of that attempt; if the first
  attempt and all 3 retries raise it, the whole aggregation ends with \<open>SSLError\<close> after 4
  requests of the batch, whatever the batches before it returned. The model has no clock:
  the source has no delay between the attempts, and the model says nothing about time.
\<close>

theorem statistics_batches_and_retries:
  "(faults yt = [] \<longrightarrow>
      (\<exists>st'. fst (get_videos_statistics yt ids) = Inr st') \<and>
      calls (snd (get_videos_statistics yt ids)) = calls yt @
        map (\<lambda>k. VideosList (take 50 (drop (50 * k) ids))) [0..<(length ids + 49) div 50]) \<and>
   concat (map (\<lambda>k. take 50 (drop (50 * k) ids)) [0..<(length ids + 49) div 50]) = ids \<and>
   (\<forall>k. length (take 50 (drop (50 * k) ids)) \<le> 50) \<and>
   (\<forall>i st j. i < length ids \<and> j < 3 \<and>
       take (Suc j) (faults yt) = replicate (Suc j) SSLFault \<and>
       next_fault ((advance (VideosList (take 50 (drop i ids))) ^^ Suc j) yt) \<noteq> SSLFault \<longrightarrow>
       stats_loop yt ids i st =
         (case try_batch ((advance (VideosList (take 50 (drop i ids))) ^^ Suc j) yt)
                 (take 50 (drop i ids)) st of
            (a, st', yt') \<Rightarrow> stats_loop yt' ids (i + 50) st')) \<and>
   (\<forall>i st. i < length ids \<and> take 4 (faults yt) = replicate 4 SSLFault \<longrightarrow>
       stats_loop yt ids i st =
         (Inl SSLError, (advance (VideosList (take 50 (drop i ids))) ^^ 4) yt)) \<and>
   (\<forall>k. 50 * k < length ids \<and>
       take (k + 4) (faults yt) = replicate k NoFault @ replicate 4 SSLFault \<longrightarrow>
       fst (get_videos_statistics yt ids) = Inl SSLError \<and>
       calls (snd (get_videos_statistics yt ids)) = calls yt @
         map (\<lambda>j. VideosList (take 50 (drop (50 * j) ids))) [0..<k] @
         replicate 4 (VideosList (take 50 (drop (50 * k) ids))))"
proof (intro conjI allI impI; (elim conjE)?)
  assume "faults yt = []"
  from stats_loop_batches [OF this, of ids 0 "[]"]
  show "\<exists>st'. fst (get_videos_statistics yt ids) = Inr st'"
    and "calls (snd (get_videos_statistics yt ids)) = calls yt @
        map (\<lambda>k. VideosList (take 50 (drop (50 * k) ids))) [0..<(length ids + 49) div 50]"
    by (simp_all add: get_videos_statistics_def)
next
  show "concat (map (\<lambda>k. take 50 (drop (50 * k) ids)) [0..<(length ids + 49) div 50]) = ids"
    using batches_concat [of 0 ids] by simp
next
  fix k show "length (take 50 (drop (50 * k) ids)) \<le> 50" by simp
next
  fix i st j
  assume "i < length ids" "j < 3" "take (Suc j) (faults yt) = replicate (Suc j) SSLFault"
    "next_fault ((advance (VideosList (take 50 (drop i ids))) ^^ Suc j) yt) \<noteq> SSLFault"
  then show "stats_loop yt ids i st =
         (case try_batch ((advance (VideosList (take 50 (drop i ids))) ^^ Suc j) yt)
                 (take 50 (drop i ids)) st of
            (a, st', yt') \<Rightarrow> stats_loop yt' ids (i + 50) st')"
    by (rule stats_loop_recover)
next
  fix i st
  assume "i < length ids" "take 4 (faults yt) = replicate 4 SSLFault"
  then show "stats_loop yt ids i st =
         (Inl SSLError, (advance (VideosList (take 50 (drop i ids))) ^^ 4) yt)"
    by (rule stats_loop_exhaust)
next
  fix k
  assume "50 * k < length ids"
    and f: "take (k + 4) (faults yt) = replicate k NoFault @ replicate 4 SSLFault"
  then have "0 + 50 * k < length ids" by simp
  from stats_loop_exhaust_later [OF this f, of "[]"]
  show "fst (get_videos_statistics yt ids) = Inl SSLError"
    and "calls (snd (get_videos_statistics yt ids)) = calls yt @
         map (\<lambda>j. VideosList (take 50 (drop (50 * j) ids))) [0..<k] @
         replicate 4 (VideosList (take 50 (drop (50 * k) ids)))"
    by (simp_all add: get_videos_statistics_def)
qed

text \<open>
  The theorem at 60 ids: two batches without faults; a first batch that succeeds at its
  second retry; a first batch and a second batch that exhaust their retries.
\<close>

theorem statistics_batches_and_retries_witness:
  "faults (video_service []) = [] \<and>
   (\<exists>st'. fst (get_videos_statistics (video_service []) (replicate 50 ''a'' @ replicate 10 ''b''))
      = Inr st') \<and>
   calls (snd (get_videos_statistics (video_service []) (replicate 50 ''a'' @ replicate 10 ''b'')))
     = [VideosList (replicate 50 ''a''), VideosList (replicate 10 ''b'')] \<and>
   (0::nat) < length (replicate 50 ''a'' @ replicate 10 ''b'') \<and> (1::nat) < 3 \<and>
   take (Suc 1) (faults (video_service [SSLFault, SSLFault])) = replicate (Suc 1) SSLFault \<and>
   next_fault ((advance (VideosList (replicate 50 ''a'')) ^^ Suc 1) (video_service [SSLFault, SSLFault]))
     \<noteq> SSLFault \<and>
   stats_loop (video_service [SSLFault, SSLFault]) (replicate 50 ''a'' @ replicate 10 ''b'') 0 [] =
     stats_loop ((advance (VideosList (replicate 50 ''a'')) ^^ 3) (video_service [SSLFault, SSLFault]))
       (replicate 50 ''a'' @ replicate 10 ''b'') 50 (replicate 50 (sample_stat ''a'')) \<and>
   take 4 (faults (video_service (replicate 4 SSLFault))) = replicate 4 SSLFault \<and>
   stats_loop (video_service (replicate 4 SSLFault)) (replicate 50 ''a'' @ replicate 10 ''b'') 0 [] =
     (Inl SSLError,
      (advance (VideosList (replicate 50 ''a'')) ^^ 4) (video_service (replicate 4 SSLFault))) \<and>
   50 * 1 < length (replicate 50 ''a'' @ replicate 10 ''b'') \<and>
   take (1 + 4) (faults (video_service (NoFault # replicate 4 SSLFault)))
     = replicate 1 NoFault @ replicate 4 SSLFault \<and>
   fst (get_videos_statistics (video_service (NoFault # replicate 4 SSLFault))
          (replicate 50 ''a'' @ replicate 10 ''b'')) = Inl SSLError \<and>
   calls (snd (get_videos_statistics (video_service (NoFault # replicate 4 SSLFault))
          (replicate 50 ''a'' @ replicate 10 ''b'')))
     = VideosList (replicate 50 ''a'') # replicate 4 (VideosList (replicate 10 ''b''))"
proof -
  let ?ids = "replicate 50 ''a'' @ replicate 10 ''b''"
  let ?y0 = "video_service []"
  let ?y2 = "video_service [SSLFault, SSLFault]"
  let ?y4 = "video_service (replicate 4 SSLFault)"
  let ?y5 = "video_service (NoFault # replicate 4 SSLFault)"
  let ?ca = "VideosList (replicate 50 ''a'')"
  have u: "[0..<(length ?ids + 49) div 50] = [0, 1]" by (simp add: upt_rec)
  have h0: "faults ?y0 = []" and c0: "calls ?y0 = []" by (simp_all add: video_service_def)
  from statistics_batches_and_retries [of ?y0 ?ids, THEN conjunct1, rule_format, OF h0]
  have r0: "(\<exists>st'. fst (get_videos_statistics ?y0 ?ids) = Inr st') \<and>
     calls (snd (get_videos_statistics ?y0 ?ids)) = [?ca, VideosList (replicate 10 ''b'')]"
    unfolding u c0 by simp
  have h2: "(0::nat) < length ?ids \<and> (1::nat) < 3 \<and>
     take (Suc 1) (faults ?y2) = replicate (Suc 1) SSLFault \<and>
     next_fault ((advance (VideosList (take 50 (drop 0 ?ids))) ^^ Suc 1) ?y2) \<noteq> SSLFault"
    by (simp add: video_service_def next_fault_def)
  have tb: "try_batch ((advance ?ca ^^ Suc 1) ?y2) (replicate 50 ''a'') []
      = (Succeeded, replicate 50 (sample_stat ''a''), (advance ?ca ^^ 3) ?y2)"
    by (simp add: try_batch_NoFault next_fault_def video_service_def append_stats_sample
        numeral_3_eq_3 del: map_replicate) simp
  from statistics_batches_and_retries [of ?y2 ?ids, THEN conjunct2, THEN conjunct2, THEN conjunct2,
      THEN conjunct1, rule_format, of 0 1 "[]", OF h2]
  have r2: "stats_loop ?y2 ?ids 0 [] =
     stats_loop ((advance ?ca ^^ 3) ?y2) ?ids 50 (replicate 50 (sample_stat ''a''))"
    using tb by simp
  have h4: "(0::nat) < length ?ids \<and> take 4 (faults ?y4) = replicate 4 SSLFault"
    by (simp add: video_service_def)
  from statistics_batches_and_retries [of ?y4 ?ids, THEN conjunct2, THEN conjunct2, THEN conjunct2,
      THEN conjunct2, THEN conjunct1, rule_format, of 0 "[]", OF h4]
  have r4: "stats_loop ?y4 ?ids 0 [] = (Inl SSLError, (advance ?ca ^^ 4) ?y4)"
    by simp
  have h5: "50 * 1 < length ?ids \<and>
     take (1 + 4) (faults ?y5) = replicate 1 NoFault @ replicate 4 SSLFault"
    by (simp add: video_service_def)
  have c5: "calls ?y5 = []" by (simp add: video_service_def)
  from statistics_batches_and_retries [of ?y5 ?ids, THEN conjunct2, THEN conjunct2, THEN conjunct2,
      THEN conjunct2, THEN conjunct2, rule_format, of 1, OF h5]
  have r5: "fst (get_videos_statistics ?y5 ?ids) = Inl SSLError \<and>
     calls (snd (get_videos_statistics ?y5 ?ids))
       = ?ca # replicate 4 (VideosList (replicate 10 ''b''))"
    unfolding c5 by simp
  show ?thesis using h0 r0 h2 r2 h4 r4 h5 r5 by simp
qed

section \<open>What \<open>get_videos_statistics\<close> can raise\<close>

text \<open>
  Claim C10. The only error \<open>get_videos_statistics\<close> passes to its caller is the SSL error,
  and only when four calls in a row met an SSL fault (the first attempt of a batch and
  its 3 retries). On the empty list it returns the empty list and calls nothing. Any
  other error skips at most the batch it occurs in: on the first attempt, and on a retry
  after one to three SSL faults, the loop goes on with the next batch and the same
  records; an attempt that meets no fault goes on with the next batch as well, with
  records that extend the ones before (also when an item of the response is malformed).
\<close>

theorem statistics_only_ssl_propagates:
  "(\<forall>e yt'. get_videos_statistics yt ids = (Inl e, yt') \<longrightarrow>
       e = SSLError \<and> (\<exists>pre post. faults yt = pre @ replicate 4 SSLFault @ post)) \<and>
   get_videos_statistics yt [] = (Inr [], yt) \<and>
   (\<forall>i st. i < length ids \<and> next_fault yt = OtherFault \<longrightarrow>
       stats_loop yt ids i st =
         stats_loop (advance (VideosList (take 50 (drop i ids))) yt) ids (i + 50) st) \<and>
   (\<forall>i st j. i < length ids \<and> j < 3 \<and>
       take (Suc j) (faults yt) = replicate (Suc j) SSLFault \<and>
       next_fault ((advance (VideosList (take 50 (drop i ids))) ^^ Suc j) yt) = OtherFault \<longrightarrow>
       stats_loop yt ids i st =
         stats_loop ((advance (VideosList (take 50 (drop i ids))) ^^ Suc (Suc j)) yt) ids (i + 50) st) \<and>
   (\<forall>i st. i < length ids \<and> next_fault yt = NoFault \<longrightarrow>
       (\<exists>st'. prefix st st' \<and>
          stats_loop yt ids i st =
            stats_loop (advance (VideosList (take 50 (drop i ids))) yt) ids (i + 50) st'))"
proof (intro conjI allI impI; (elim conjE)?)
  fix e yt'
  assume "get_videos_statistics yt ids = (Inl e, yt')"
  then have "stats_loop yt ids 0 [] = (Inl e, yt')" by (simp add: get_videos_statistics_def)
  then have "e = SSLError \<and> (\<exists>pre post. faults yt = pre @ replicate 4 SSLFault @ post)"
    by (rule stats_loop_raises)
  then show "e = SSLError" and "\<exists>pre post. faults yt = pre @ replicate 4 SSLFault @ post"
    by simp_all
next
  show "get_videos_statistics yt [] = (Inr [], yt)"
    by (simp add: get_videos_statistics_def stats_loop_done)
next
  fix i st
  assume "i < length ids" and o: "next_fault yt = OtherFault"
  then have "stats_loop yt ids i st =
      (case try_batch yt (take 50 (drop i ids)) st of (a, st', yt') \<Rightarrow> stats_loop yt' ids (i + 50) st')"
    by (intro stats_loop_other) simp_all
  then show "stats_loop yt ids i st =
         stats_loop (advance (VideosList (take 50 (drop i ids))) yt) ids (i + 50) st"
    by (simp add: try_batch_Other [OF o])
next
  fix i st j
  let ?c = "VideosList (take 50 (drop i ids))"
  assume a: "i < length ids" "j < 3" "take (Suc j) (faults yt) = replicate (Suc j) SSLFault"
    and o: "next_fault ((advance ?c ^^ Suc j) yt) = OtherFault"
  then have "next_fault ((advance ?c ^^ Suc j) yt) \<noteq> SSLFault" by simp
  from stats_loop_recover [OF a this, of st]
  show "stats_loop yt ids i st = stats_loop ((advance ?c ^^ Suc (Suc j)) yt) ids (i + 50) st"
    unfolding try_batch_Other [OF o] by (simp only: prod.case funpow.simps o_apply)
next
  fix i st
  let ?b = "take 50 (drop i ids)"
  assume lt: "i < length ids" and n: "next_fault yt = NoFault"
  then have nf: "next_fault yt \<noteq> SSLFault" by simp
  obtain a st1 yt1 where t: "try_batch yt ?b st = (a, st1, yt1)"
    by (cases "try_batch yt ?b st")
  have y1: "yt1 = advance (VideosList ?b) yt" using try_batch_state [of yt ?b st] t by simp
  have "prefix st st1" using t by (rule try_batch_prefix)
  moreover have "stats_loop yt ids i st = stats_loop (advance (VideosList ?b) yt) ids (i + 50) st1"
    using stats_loop_other [OF lt nf] t y1 by simp
  ultimately show "\<exists>st'. prefix st st' \<and>
          stats_loop yt ids i st = stats_loop (advance (VideosList ?b) yt) ids (i + 50) st'"
    by blast
qed

text \<open>
  The theorem at one id: four SSL faults raise; another error on the first attempt, or
  on the first retry, moves on to the next batch.
\<close>

theorem statistics_only_ssl_propagates_witness:
  "get_videos_statistics (video_service (replicate 4 SSLFault)) [''a''] =
     (Inl SSLError, (advance (VideosList [''a'']) ^^ 4) (video_service (replicate 4 SSLFault))) \<and>
   (\<exists>pre post. faults (video_service (replicate 4 SSLFault)) = pre @ replicate 4 SSLFault @ post) \<and>
   get_videos_statistics (video_service []) [] = (Inr [], video_service []) \<and>
   (0::nat) < length [''a''] \<and> next_fault (video_service [OtherFault]) = OtherFault \<and>
   stats_loop (video_service [OtherFault]) [''a''] 0 [] =
     stats_loop (advance (VideosList [''a'']) (video_service [OtherFault])) [''a''] 50 [] \<and>
   (0::nat) < 3 \<and>
   take (Suc 0) (faults (video_service [SSLFault, OtherFault])) = replicate (Suc 0) SSLFault \<and>
   next_fault ((advance (VideosList [''a'']) ^^ Suc 0) (video_service [SSLFault, OtherFault]))
     = OtherFault \<and>
   stats_loop (video_service [SSLFault, OtherFault]) [''a''] 0 [] =
     stats_loop ((advance (VideosList [''a'']) ^^ Suc (Suc 0)) (video_service [SSLFault, OtherFault]))
       [''a''] 50 [] \<and>
   next_fault (video_service []) = NoFault \<and>
   (\<exists>st'. prefix [] st' \<and>
      stats_loop (video_service []) [''a''] 0 [] =
        stats_loop (advance (VideosList [''a'']) (video_service [])) [''a''] 50 st')"
proof -
  let ?ids = "[''a'']"
  let ?c = "VideosList [''a'']"
  let ?y4 = "video_service (replicate 4 SSLFault)"
  let ?y0 = "video_service []"
  let ?yo = "video_service [OtherFault]"
  let ?yso = "video_service [SSLFault, OtherFault]"
  have v4: "get_videos_statistics ?y4 ?ids = (Inl SSLError, (advance ?c ^^ 4) ?y4)"
    unfolding get_videos_statistics_def
    using stats_loop_exhaust [of 0 ?ids ?y4 "[]"] by (simp add: video_service_def)
  from statistics_only_ssl_propagates [of ?y4 ?ids, THEN conjunct1, rule_format, OF v4]
  have r4: "\<exists>pre post. faults ?y4 = pre @ replicate 4 SSLFault @ post" by (rule conjunct2)
  have r0: "get_videos_statistics ?y0 [] = (Inr [], ?y0)"
    by (rule statistics_only_ssl_propagates [of ?y0 "[]", THEN conjunct2, THEN conjunct1])
  have ho: "(0::nat) < length ?ids \<and> next_fault ?yo = OtherFault"
    by (simp add: video_service_def next_fault_def)
  from statistics_only_ssl_propagates [of ?yo ?ids, THEN conjunct2, THEN conjunct2, THEN conjunct1,
      rule_format, of 0 "[]", OF ho]
  have ro: "stats_loop ?yo ?ids 0 [] = stats_loop (advance ?c ?yo) ?ids 50 []" by simp
  have hs: "(0::nat) < length ?ids \<and> (0::nat) < 3 \<and>
     take (Suc 0) (faults ?yso) = replicate (Suc 0) SSLFault \<and>
     next_fault ((advance (VideosList (take 50 (drop 0 ?ids))) ^^ Suc 0) ?yso) = OtherFault"
    by (simp add: video_service_def next_fault_def)
  from statistics_only_ssl_propagates [of ?yso ?ids, THEN conjunct2, THEN conjunct2, THEN conjunct2,
      THEN conjunct1, rule_format, of 0 0 "[]", OF hs]
  have rs: "stats_loop ?yso ?ids 0 [] = stats_loop ((advance ?c ^^ Suc (Suc 0)) ?yso) ?ids 50 []"
    by simp
  have hn: "(0::nat) < length ?ids \<and> next_fault ?y0 = NoFault"
    by (simp add: video_service_def next_fault_def)
  from statistics_only_ssl_propagates [of ?y0 ?ids, THEN conjunct2, THEN conjunct2, THEN conjunct2,
      THEN conjunct2, rule_format, of 0 "[]", OF hn]
  have rn: "\<exists>st'. prefix [] st' \<and>
      stats_loop ?y0 ?ids 0 [] = stats_loop (advance ?c ?y0) ?ids 50 st'"
    by simp
  show ?thesis using v4 r4 r0 ho ro hs rs hn rn by simp
qed

section \<open>A URL with a channel id\<close>



section \<open>The trailing moving average\<close>



end
